theory Spec2Isabelle
  imports Main "HOL-Library.Sublist" "HOL-Library.Char_ord" "HOL-Library.List_Lexorder"
    "HOL-Library.Product_Lexorder"
begin

section \<open>Strings\<close>

text \<open>
  Python strings and file contents are modelled as \<open>char list\<close>; a path string is its
  UTF-8 byte sequence, so that the bytewise lexicographic order of \<^theory_text>\<open>List_Lexorder\<close>
  is the order Python's \<open>sorted\<close> and SQLite's BINARY collation use.
\<close>

type_synonym bytes = string

text \<open>\<open>str(i)\<close> for a non-negative integer: its decimal digits.\<close>

definition digit :: "nat \<Rightarrow> char" where
  "digit d = ''0123456789'' ! d"

fun str_nat :: "nat \<Rightarrow> string" where
  "str_nat n = (if n < 10 then [digit n] else str_nat (n div 10) @ [digit (n mod 10)])"

declare str_nat.simps [simp del]

text \<open>The format specification \<open>{n:0wd}\<close>: decimal digits, zero-padded to width \<open>w\<close>.\<close>

definition zero_pad :: "nat \<Rightarrow> nat \<Rightarrow> string" where
  "zero_pad w n = replicate (w - length (str_nat n)) (CHR ''0'') @ str_nat n"

text \<open>\<open>sep.join(xs)\<close> and \<open>s.split(c)\<close> for a one-character separator.\<close>

fun str_join :: "string \<Rightarrow> string list \<Rightarrow> string" where
  "str_join sep [] = []"
| "str_join sep [x] = x"
| "str_join sep (x # y # ys) = x @ sep @ str_join sep (y # ys)"

fun str_split :: "char \<Rightarrow> string \<Rightarrow> string list" where
  "str_split c [] = [[]]"
| "str_split c (x # xs) =
     (if x = c then [] # str_split c xs
      else (case str_split c xs of
              w # ws \<Rightarrow> (x # w) # ws
            | [] \<Rightarrow> [[x]]))"

text \<open>\<open>s.lower()\<close> on ASCII letters, and \<open>s.replace('.', r)\<close>.\<close>

definition lower_char :: "char \<Rightarrow> char" where
  "lower_char c =
     (if CHR ''A'' \<le> c \<and> c \<le> CHR ''Z'' then char_of (of_char c + (32 :: nat)) else c)"

definition lower :: "string \<Rightarrow> string" where
  "lower s = map lower_char s"

definition replace_dot :: "string \<Rightarrow> string \<Rightarrow> string" where
  "replace_dot r s = concat (map (\<lambda>c. if c = CHR ''.'' then r else [c]) s)"

section \<open>Paths (pathlib)\<close>

text \<open>
  A \<open>pathlib.Path\<close> is modelled by the list of its components below the root, as
  \<open>PurePosixPath\<close> keeps them: the model covers absolute POSIX paths, the root being
  \<open>[]\<close>. \<open>Path(s)\<close> splits at \<open>/\<close> and drops empty and \<open>.\<close> segments;
  \<open>str(p)\<close> joins the components again.
\<close>

type_synonym path = "string list"

datatype error =
    ValueError | FileNotFoundError | FileExistsError | IsADirectoryError
  | NotADirectoryError | OSError | ShutilError | RuntimeError

definition Path :: "string \<Rightarrow> path" where
  "Path s = filter (\<lambda>c. c \<noteq> [] \<and> c \<noteq> ''.'') (str_split (CHR ''/'') s)"

definition str_path :: "path \<Rightarrow> string" where
  "str_path p = CHR ''/'' # str_join ''/'' p"

definition parent :: "path \<Rightarrow> path" where
  "parent p = butlast p"

definition name :: "path \<Rightarrow> string" where
  "name p = (if p = [] then [] else last p)"

text \<open>
  \<open>suffix\<close> and \<open>stem\<close>: with \<open>i = name.rfind('.')\<close>, the suffix is \<open>name[i:]\<close> when
  \<open>0 < i < len(name) - 1\<close> and empty otherwise. Here \<open>k\<close> counts the characters after
  the last dot, so \<open>i = len(name) - 1 - k\<close>.
\<close>

definition after_last_dot :: "string \<Rightarrow> nat" where
  "after_last_dot n = length (takeWhile (\<lambda>c. c \<noteq> CHR ''.'') (rev n))"

definition has_suffix :: "string \<Rightarrow> bool" where
  "has_suffix n \<longleftrightarrow>
     CHR ''.'' \<in> set n \<and> 0 < after_last_dot n \<and> after_last_dot n + 1 < length n"

definition path_suffix :: "path \<Rightarrow> string" where
  "path_suffix p =
     (let n = name p in
      if has_suffix n then drop (length n - 1 - after_last_dot n) n else [])"

definition stem :: "path \<Rightarrow> string" where
  "stem p =
     (let n = name p in
      if has_suffix n then take (length n - 1 - after_last_dot n) n else n)"

text \<open>\<open>with_name\<close> and \<open>with_suffix\<close> raise \<open>ValueError\<close> on a path with an empty name.\<close>

definition with_name :: "path \<Rightarrow> string \<Rightarrow> error + path" where
  "with_name p n =
     (if name p = [] then Inl ValueError
      else if n = [] \<or> CHR ''/'' \<in> set n \<or> n = ''.'' then Inl ValueError
      else Inr (butlast p @ [n]))"

definition with_suffix :: "path \<Rightarrow> string \<Rightarrow> error + path" where
  "with_suffix p suf =
     (if CHR ''/'' \<in> set suf then Inl ValueError
      else if (suf \<noteq> [] \<and> hd suf \<noteq> CHR ''.'') \<or> suf = ''.'' then Inl ValueError
      else if name p = [] then Inl ValueError
      else Inr (butlast p @
             [(if path_suffix p = [] then name p
               else take (length (name p) - length (path_suffix p)) (name p)) @ suf]))"

text \<open>\<open>p.parents\<close>: the proper ancestors, nearest first, the root last.\<close>

definition parents :: "path \<Rightarrow> path list" where
  "parents p = rev (butlast (prefixes p))"

text \<open>\<open>p.resolve().anchor\<close>: on POSIX every absolute path has the anchor \<open>/\<close>.\<close>

definition anchor :: "path \<Rightarrow> string" where
  "anchor p = ''/''"

section \<open>The filesystem\<close>

text \<open>
  The filesystem is a finite table from paths to nodes; the order of the table stands for
  the order in which the operating system enumerates entries. The root always exists
  and is a directory. A file has one name: the table holds no hard or symbolic links.
\<close>

datatype node = File bytes | Dir

type_synonym fs = "(path \<times> node) list"

definition lookup :: "fs \<Rightarrow> path \<Rightarrow> node option" where
  "lookup fs p = (if p = [] then Some Dir else map_of fs p)"

definition path_exists :: "fs \<Rightarrow> path \<Rightarrow> bool" where
  "path_exists fs p \<longleftrightarrow> lookup fs p \<noteq> None"

definition is_file :: "fs \<Rightarrow> path \<Rightarrow> bool" where
  "is_file fs p \<longleftrightarrow> (case lookup fs p of Some (File _) \<Rightarrow> True | _ \<Rightarrow> False)"

definition is_dir :: "fs \<Rightarrow> path \<Rightarrow> bool" where
  "is_dir fs p \<longleftrightarrow> lookup fs p = Some Dir"

definition fs_del :: "path \<Rightarrow> fs \<Rightarrow> fs" where
  "fs_del p fs = filter (\<lambda>e. fst e \<noteq> p) fs"

definition fs_put :: "path \<Rightarrow> node \<Rightarrow> fs \<Rightarrow> fs" where
  "fs_put p n fs = (p, n) # fs_del p fs"

text \<open>
  \<open>p.mkdir(parents=True, exist_ok=True)\<close>: an existing directory is accepted, a regular
  file at \<open>p\<close> raises \<open>FileExistsError\<close>, a regular file at an ancestor raises
  \<open>NotADirectoryError\<close> before anything is created, and missing ancestors are
  created root-ward first.
\<close>

function mkdir_parents :: "fs \<Rightarrow> path \<Rightarrow> error + fs" where
  "mkdir_parents fs p =
     (case lookup fs p of
        Some Dir \<Rightarrow> Inr fs
      | Some (File _) \<Rightarrow> Inl FileExistsError
      | None \<Rightarrow>
          (case mkdir_parents fs (parent p) of
             Inl e \<Rightarrow> Inl NotADirectoryError
           | Inr fs' \<Rightarrow> Inr (fs_put p Dir fs')))"
  by pat_completeness auto
termination
  by (relation "measure (\<lambda>(fs, p). length p)") (auto simp: lookup_def parent_def split: if_splits)

declare mkdir_parents.simps [simp del]

text \<open>\<open>p.stat().st_size\<close>; the size the system reports for a directory is not modelled.\<close>

definition stat_size :: "fs \<Rightarrow> path \<Rightarrow> error + nat" where
  "stat_size fs p =
     (case lookup fs p of
        None \<Rightarrow> Inl FileNotFoundError
      | Some (File b) \<Rightarrow> Inr (length b)
      | Some Dir \<Rightarrow> Inr 0)"

text \<open>Opening for reading and reading everything; opening for writing truncates.\<close>

definition read_bytes :: "fs \<Rightarrow> path \<Rightarrow> error + bytes" where
  "read_bytes fs p =
     (case lookup fs p of
        None \<Rightarrow> Inl FileNotFoundError
      | Some Dir \<Rightarrow> Inl IsADirectoryError
      | Some (File b) \<Rightarrow> Inr b)"

definition open_wb :: "fs \<Rightarrow> path \<Rightarrow> error + fs" where
  "open_wb fs p =
     (case lookup fs p of
        Some Dir \<Rightarrow> Inl IsADirectoryError
      | _ \<Rightarrow>
          (case lookup fs (parent p) of
             None \<Rightarrow> Inl FileNotFoundError
           | Some (File _) \<Rightarrow> Inl NotADirectoryError
           | Some Dir \<Rightarrow> Inr (fs_put p (File []) fs)))"

definition write_text :: "fs \<Rightarrow> path \<Rightarrow> bytes \<Rightarrow> error + fs" where
  "write_text fs p b =
     (case open_wb fs p of Inl e \<Rightarrow> Inl e | Inr fs' \<Rightarrow> Inr (fs_put p (File b) fs'))"

text \<open>
  \<open>os.rename\<close> with its POSIX behaviour: a file replaces an existing file, a directory
  moves with everything below it, and the mismatched cases raise.
\<close>

definition rekey :: "path \<Rightarrow> path \<Rightarrow> fs \<Rightarrow> fs" where
  "rekey a b fs =
     map (\<lambda>e. if prefix a (fst e) then (b @ drop (length a) (fst e), snd e) else e)
       (fs_del b fs)"

definition os_rename :: "fs \<Rightarrow> path \<Rightarrow> path \<Rightarrow> error + fs" where
  "os_rename fs a b =
     (case lookup fs a of
        None \<Rightarrow> Inl FileNotFoundError
      | Some (File c) \<Rightarrow>
          (case lookup fs (parent b) of
             None \<Rightarrow> Inl FileNotFoundError
           | Some (File _) \<Rightarrow> Inl NotADirectoryError
           | Some Dir \<Rightarrow>
               (case lookup fs b of
                  Some Dir \<Rightarrow> Inl IsADirectoryError
                | _ \<Rightarrow> Inr (fs_put b (File c) (fs_del a fs))))
      | Some Dir \<Rightarrow>
          (if a = b then Inr fs
           else if a = [] \<or> prefix a b then Inl OSError
           else (case lookup fs (parent b) of
                   None \<Rightarrow> Inl FileNotFoundError
                 | Some (File _) \<Rightarrow> Inl NotADirectoryError
                 | Some Dir \<Rightarrow>
                     (case lookup fs b of
                        Some (File _) \<Rightarrow> Inl NotADirectoryError
                      | Some Dir \<Rightarrow>
                          (if list_ex (\<lambda>e. strict_prefix b (fst e)) fs then Inl OSError
                           else Inr (rekey a b fs))
                      | None \<Rightarrow> Inr (rekey a b fs)))))"

section \<open>The uniqueness rule (dedupelab/planner.py)\<close>

text \<open>
  \<open>ensure_unique\<close> returns \<open>dst\<close> when nothing exists there, and otherwise the first of
  \<open>parent / f"{stem} ({i}){suf}"\<close> for \<open>i = 1, 2, \<dots>\<close> that does not exist.
\<close>

definition candidate :: "path \<Rightarrow> nat \<Rightarrow> path" where
  "candidate dst i = parent dst @ [stem dst @ '' ('' @ str_nat i @ '')'' @ path_suffix dst]"

function ensure_unique_from :: "fs \<Rightarrow> path \<Rightarrow> nat \<Rightarrow> path" where
  "ensure_unique_from fs dst i =
     (if \<not> path_exists fs (candidate dst i) then candidate dst i
      else ensure_unique_from fs dst (i + 1))"
  by pat_completeness auto

definition ensure_unique :: "fs \<Rightarrow> path \<Rightarrow> path" where
  "ensure_unique fs dst =
     (if \<not> path_exists fs dst then dst else ensure_unique_from fs dst 1)"

text \<open>
  The callers' guard \<open>if dst.exists(): dst = ensure_unique(dst)\<close>, used by both appliers
  for a late collision and by the rollback for an occupied restoration target: the path
  it leaves in \<open>dst\<close> when no \<open>exists()\<close> raises.
\<close>

definition unique_if_exists :: "fs \<Rightarrow> path \<Rightarrow> path" where
  "unique_if_exists fs dst = (if path_exists fs dst then ensure_unique fs dst else dst)"

section \<open>Injected failures and the environment\<close>

text \<open>
  The I/O steps that the appliers guard with \<open>try\<close>/\<open>except\<close> can fail for reasons
  outside the filesystem table (full disk, permissions, a device error). A \<open>faults\<close>
  record says which of them fail while one plan row or checkpoint entry is handled.
  A copy can fail before the temporary file is opened, fail after writing a number of
  bytes, or silently write other bytes.

  \<open>Path.exists()\<close> and \<open>Path.stat()\<close> call \<open>os.stat\<close>; \<open>exists\<close> answers \<open>False\<close>
  for \<open>ENOENT\<close>, \<open>ENOTDIR\<close>, \<open>EBADF\<close> and \<open>ELOOP\<close> and raises every other
  \<open>OSError\<close> again (a name longer than the system allows, a directory that may not be
  searched). \<open>stat_raises\<close> says for which paths \<open>os.stat\<close> raises such an error.

  Each \<open>print\<close> of \<open>applier.py\<close> writes one message to the console and raises when the
  stream refuses it (a closed pipe, an encoding that lacks the arrow of the message);
  \<open>print_fails\<close> says for which messages.
\<close>

datatype copy_outcome = CopyOk | OpenFails | WriteFails nat | Corrupts bytes

datatype message =
    SourceNotFound | DestinationExists | WouldMove | Moved | MoveFailed | SourceDeletionFailed

record faults =
  copy_fault :: copy_outcome
  fsync_fails :: bool
  read_fails :: bool
  rename_fails :: bool
  unlink_src_fails :: bool
  unlink_tmp_fails :: bool
  move_fails :: bool
  stat_raises :: "path \<Rightarrow> bool"
  print_fails :: "message \<Rightarrow> bool"

definition no_faults :: faults where
  "no_faults = \<lparr>copy_fault = CopyOk, fsync_fails = False, read_fails = False,
     rename_fails = False, unlink_src_fails = False, unlink_tmp_fails = False,
     move_fails = False, stat_raises = (\<lambda>p. False), print_fails = (\<lambda>m. False)\<rparr>"

text \<open>\<open>p.exists()\<close>, \<open>p.stat().st_size\<close> and \<open>print(...)\<close> with their exceptions.\<close>

definition path_exists_or_raise :: "faults \<Rightarrow> fs \<Rightarrow> path \<Rightarrow> error + bool" where
  "path_exists_or_raise F fs p = (if stat_raises F p then Inl OSError else Inr (path_exists fs p))"

definition stat_size_or_raise :: "faults \<Rightarrow> fs \<Rightarrow> path \<Rightarrow> error + nat" where
  "stat_size_or_raise F fs p = (if stat_raises F p then Inl OSError else stat_size fs p)"

definition print_message :: "faults \<Rightarrow> message \<Rightarrow> error + unit" where
  "print_message F m = (if print_fails F m then Inl OSError else Inr ())"

text \<open>
  \<open>ensure_unique\<close> as its callers run it, each \<open>exists()\<close> of the loop raising where
  \<open>os.stat\<close> does; whenever it returns, it returns the path \<open>ensure_unique\<close> above
  gives. The callers' guard \<open>if dst.exists(): dst = ensure_unique(dst)\<close> follows.
\<close>

function ensure_unique_from_or_raise :: "faults \<Rightarrow> fs \<Rightarrow> path \<Rightarrow> nat \<Rightarrow> error + path" where
  "ensure_unique_from_or_raise F fs dst i =
     (case path_exists_or_raise F fs (candidate dst i) of
        Inl e \<Rightarrow> Inl e
      | Inr found \<Rightarrow>
          if \<not> found then Inr (candidate dst i)
          else ensure_unique_from_or_raise F fs dst (i + 1))"
  by pat_completeness auto

definition ensure_unique_or_raise :: "faults \<Rightarrow> fs \<Rightarrow> path \<Rightarrow> error + path" where
  "ensure_unique_or_raise F fs dst =
     (case path_exists_or_raise F fs dst of
        Inl e \<Rightarrow> Inl e
      | Inr found \<Rightarrow> if \<not> found then Inr dst else ensure_unique_from_or_raise F fs dst 1)"

definition unique_if_exists_or_raise :: "faults \<Rightarrow> fs \<Rightarrow> path \<Rightarrow> error + path" where
  "unique_if_exists_or_raise F fs dst =
     (case path_exists_or_raise F fs dst of
        Inl e \<Rightarrow> Inl e
      | Inr found \<Rightarrow> if found then ensure_unique_or_raise F fs dst else Inr dst)"

section \<open>Plan rows and checkpoints\<close>

record plan_row =
  status :: string
  op :: string
  src_path :: string
  dst_path :: string
  content_id :: string
  reason :: string
  rollback_key :: string
  ts :: string

text \<open>
  A move entry of a checkpoint is a dictionary with the keys \<open>src\<close> and \<open>dst\<close> and,
  in the format of \<open>applier.py\<close>, \<open>size\<close> and \<open>timestamp\<close>; a key the writer leaves
  out is \<open>None\<close>.
\<close>

record move_entry =
  mv_src :: string
  mv_dst :: string
  mv_size :: "nat option"
  mv_timestamp :: "nat option"

record statistics =
  attempted :: nat
  succeeded :: nat
  skipped :: nat
  errors :: nat
  bytes_moved :: nat

record apply_result = statistics +
  dry_run :: bool

text \<open>
  The manifest of \<open>applier.py\<close> has the keys \<open>timestamp\<close>, \<open>dry_run\<close>, \<open>statistics\<close>
  and \<open>moves\<close>; the one of \<open>dedupelab/applier.py\<close> has \<open>ts\<close> and \<open>moves\<close> only.
\<close>

datatype manifest =
    Manifest nat bool statistics "move_entry list"
  | ManifestTs nat "move_entry list"


text \<open>
  The environment of a run: the hash function (\<open>hashlib.sha256(...).hexdigest()\<close>), the
  JSON encoder and decoder of the \<open>json\<close> module, the clock (\<open>time.time()\<close>, read once
  per handled row and indexed by the number of rows handled before), and the failures
  injected while the \<open>k\<close>-th row or entry is handled.
\<close>

record env =
  sha256_digest :: "bytes \<Rightarrow> string"
  json_dumps :: "manifest \<Rightarrow> bytes"
  json_loads :: "bytes \<Rightarrow> manifest option"
  time_at :: "nat \<Rightarrow> nat"
  faults_at :: "nat \<Rightarrow> faults"

section \<open>The strict applier (applier.py)\<close>

definition sha256_file :: "(bytes \<Rightarrow> string) \<Rightarrow> faults \<Rightarrow> fs \<Rightarrow> path \<Rightarrow> error + string" where
  "sha256_file H F fs p =
     (if read_fails F then Inl OSError
      else (case read_bytes fs p of Inl e \<Rightarrow> Inl e | Inr b \<Rightarrow> Inr (H b)))"

text \<open>
  Phase 1, \<open>with src.open("rb") as s, dst_tmp.open("wb") as d: shutil.copyfileobj(s, d)\<close>:
  the source is opened first, opening the temporary file truncates it, and the copy
  then transfers what the source holds at that moment.
\<close>

definition copy_file :: "faults \<Rightarrow> fs \<Rightarrow> path \<Rightarrow> path \<Rightarrow> (error + unit) \<times> fs" where
  "copy_file F fs src dst_tmp =
     (case read_bytes fs src of
        Inl e \<Rightarrow> (Inl e, fs)
      | Inr _ \<Rightarrow>
          (if copy_fault F = OpenFails then (Inl OSError, fs)
           else (case open_wb fs dst_tmp of
                   Inl e \<Rightarrow> (Inl e, fs)
                 | Inr fs1 \<Rightarrow>
                     (case read_bytes fs1 src of
                        Inl e \<Rightarrow> (Inl e, fs1)
                      | Inr data \<Rightarrow>
                          (case copy_fault F of
                             WriteFails k \<Rightarrow> (Inl OSError, fs_put dst_tmp (File (take k data)) fs1)
                           | Corrupts b \<Rightarrow> (Inr (), fs_put dst_tmp (File b) fs1)
                           | _ \<Rightarrow> (Inr (), fs_put dst_tmp (File data) fs1))))))"

text \<open>\<open>with dst_tmp.open("rb+") as f: f.flush(); os.fsync(f.fileno())\<close>.\<close>

definition fsync_file :: "faults \<Rightarrow> fs \<Rightarrow> path \<Rightarrow> error + unit" where
  "fsync_file F fs p =
     (case read_bytes fs p of
        Inl e \<Rightarrow> Inl e
      | Inr _ \<Rightarrow> if fsync_fails F then Inl OSError else Inr ())"

text \<open>\<open>dst_tmp.unlink(missing_ok=True)\<close> and \<open>src.unlink()\<close>.\<close>

definition unlink_missing_ok :: "faults \<Rightarrow> fs \<Rightarrow> path \<Rightarrow> error + fs" where
  "unlink_missing_ok F fs p =
     (case lookup fs p of
        None \<Rightarrow> Inr fs
      | Some Dir \<Rightarrow> Inl IsADirectoryError
      | Some (File _) \<Rightarrow> if unlink_tmp_fails F then Inl OSError else Inr (fs_del p fs))"

definition unlink :: "bool \<Rightarrow> fs \<Rightarrow> path \<Rightarrow> error + fs" where
  "unlink fails fs p =
     (case lookup fs p of
        None \<Rightarrow> Inl FileNotFoundError
      | Some Dir \<Rightarrow> Inl IsADirectoryError
      | Some (File _) \<Rightarrow> if fails then Inl OSError else Inr (fs_del p fs))"

text \<open>
  The handlers of phases 2 to 4 unlink the temporary file and raise \<open>RuntimeError\<close>; when
  the unlink itself raises, that exception leaves the handler instead.
\<close>

definition unlink_and_raise :: "faults \<Rightarrow> fs \<Rightarrow> path \<Rightarrow> (error + nat) \<times> fs" where
  "unlink_and_raise F fs dst_tmp =
     (case unlink_missing_ok F fs dst_tmp of
        Inl e \<Rightarrow> (Inl e, fs)
      | Inr fs' \<Rightarrow> (Inl RuntimeError, fs'))"

text \<open>
  The body of the outer \<open>try\<close> of \<open>copy_verify_delete\<close>. When \<open>src.unlink()\<close>
  fails, a warning is printed and the size is returned; the \<open>print\<close> is inside the outer
  \<open>try\<close>, so when it raises the call fails although the destination is committed.
\<close>

definition copy_verify_delete_try ::
  "(bytes \<Rightarrow> string) \<Rightarrow> faults \<Rightarrow> fs \<Rightarrow> path \<Rightarrow> path \<Rightarrow> path \<Rightarrow> (error + nat) \<times> fs" where
  "copy_verify_delete_try H F fs src dst dst_tmp =
     (case mkdir_parents fs (parent dst) of
        Inl e \<Rightarrow> (Inl e, fs)
      | Inr fs1 \<Rightarrow>
     (case stat_size_or_raise F fs1 src of
        Inl e \<Rightarrow> (Inl e, fs1)
      | Inr sz \<Rightarrow>
     (case copy_file F fs1 src dst_tmp of
        (Inl e, fs2) \<Rightarrow> (Inl RuntimeError, fs2)
      | (Inr _, fs2) \<Rightarrow>
     (case fsync_file F fs2 dst_tmp of
        Inl e \<Rightarrow> unlink_and_raise F fs2 dst_tmp
      | Inr _ \<Rightarrow>
     (case sha256_file H F fs2 src of
        Inl e \<Rightarrow> (Inl e, fs2)
      | Inr src_hash \<Rightarrow>
     (case sha256_file H F fs2 dst_tmp of
        Inl e \<Rightarrow> (Inl e, fs2)
      | Inr dst_hash \<Rightarrow>
     (if src_hash \<noteq> dst_hash then unlink_and_raise F fs2 dst_tmp
      else
     (case (if rename_fails F then Inl OSError else os_rename fs2 dst_tmp dst) of
        Inl e \<Rightarrow> unlink_and_raise F fs2 dst_tmp
      | Inr fs3 \<Rightarrow>
     (case unlink (unlink_src_fails F) fs3 src of
        Inl e \<Rightarrow>
          (case print_message F SourceDeletionFailed of
             Inl e' \<Rightarrow> (Inl e', fs3)
           | Inr _ \<Rightarrow> (Inr sz, fs3))
      | Inr fs4 \<Rightarrow> (Inr sz, fs4))))))))))"

text \<open>
  The outer handler: \<open>if dst_tmp.exists(): try: dst_tmp.unlink() except: pass\<close>, then
  the exception is raised again. When \<open>exists()\<close> raises, its exception leaves the
  handler and nothing is unlinked.
\<close>

definition cleanup_tmp :: "faults \<Rightarrow> fs \<Rightarrow> path \<Rightarrow> fs" where
  "cleanup_tmp F fs dst_tmp =
     (case path_exists_or_raise F fs dst_tmp of
        Inl e \<Rightarrow> fs
      | Inr found \<Rightarrow>
          if found
          then (case unlink (unlink_tmp_fails F) fs dst_tmp of Inl e \<Rightarrow> fs | Inr fs' \<Rightarrow> fs')
          else fs)"

definition copy_verify_delete ::
  "(bytes \<Rightarrow> string) \<Rightarrow> faults \<Rightarrow> fs \<Rightarrow> path \<Rightarrow> path \<Rightarrow> (error + nat) \<times> fs" where
  "copy_verify_delete H F fs src dst =
     (case with_suffix dst (path_suffix dst @ ''.tmp'') of
        Inl e \<Rightarrow> (Inl e, fs)
      | Inr dst_tmp \<Rightarrow>
          (case copy_verify_delete_try H F fs src dst dst_tmp of
             (Inl e, fs') \<Rightarrow> (Inl e, cleanup_tmp F fs' dst_tmp)
           | (Inr sz, fs') \<Rightarrow> (Inr sz, fs')))"

text \<open>The local variables of the loop of \<open>apply_moves\<close>, and the filesystem.\<close>

record loop =
  applied :: "move_entry list"
  n_attempted :: nat
  n_skipped :: nat
  n_errors :: nat
  n_bytes_moved :: nat
  disk :: fs

definition loop_init :: "fs \<Rightarrow> loop" where
  "loop_init fs = \<lparr>applied = [], n_attempted = 0, n_skipped = 0, n_errors = 0,
     n_bytes_moved = 0, disk = fs\<rparr>"

text \<open>The guard of the loop: only \<open>move\<close> operations that are \<open>planned\<close> are handled.\<close>

definition planned :: "plan_row \<Rightarrow> bool" where
  "planned row \<longleftrightarrow> op row = ''move'' \<and> status row = ''planned''"

text \<open>
  The late-collision guard of \<open>applier.apply_moves\<close>:
  \<open>if dst.exists(): dst = ensure_unique(dst); print(...)\<close>.
\<close>

definition late_collision :: "faults \<Rightarrow> fs \<Rightarrow> path \<Rightarrow> error + path" where
  "late_collision F fs dst =
     (case path_exists_or_raise F fs dst of
        Inl e \<Rightarrow> Inl e
      | Inr found \<Rightarrow>
          if \<not> found then Inr dst
          else (case ensure_unique_or_raise F fs dst of
                  Inl e \<Rightarrow> Inl e
                | Inr unique_dst \<Rightarrow>
                    (case print_message F DestinationExists of
                       Inl e \<Rightarrow> Inl e
                     | Inr _ \<Rightarrow> Inr unique_dst)))"

text \<open>
  The value of \<open>dst\<close> that a row's iteration reaches \<open>copy_verify_delete\<close> with when
  it is handled in the filesystem \<open>fs\<close>: the row's destination as the late-collision
  guard leaves it after \<open>dst.parent.mkdir\<close> (the destination itself when that
  \<open>mkdir\<close> raises and the iteration ends there). And the path of the temporary file,
  \<open>dst.with_suffix(dst.suffix + ".tmp")\<close>, which appends \<open>.tmp\<close> to the name.
\<close>

definition final_dst :: "fs \<Rightarrow> path \<Rightarrow> path" where
  "final_dst fs dst =
     (case mkdir_parents fs (parent dst) of
        Inl e \<Rightarrow> dst
      | Inr fs1 \<Rightarrow> unique_if_exists fs1 dst)"

definition temp_path :: "path \<Rightarrow> path" where
  "temp_path dst = parent dst @ [name dst @ ''.tmp'']"

text \<open>
  The body of the \<open>try\<close> of one iteration of \<open>applier.apply_moves\<close>: the exception it
  raises, if any, and the local variables as it leaves them. The messages are printed
  inside the \<open>try\<close>: the warning after \<open>skipped += 1\<close> and the success message after
  \<open>applied.append\<close>, so that a \<open>print\<close> that raises there leaves the counter or the
  list already updated.
\<close>

definition apply_row_try ::
  "(bytes \<Rightarrow> string) \<Rightarrow> faults \<Rightarrow> nat \<Rightarrow> bool \<Rightarrow> loop \<Rightarrow> path \<Rightarrow> path \<Rightarrow> (error + unit) \<times> loop" where
  "apply_row_try H F now dry st src dst =
     (case path_exists_or_raise F (disk st) src of
        Inl e \<Rightarrow> (Inl e, st)
      | Inr found \<Rightarrow>
          if \<not> found then
            (print_message F SourceNotFound, st\<lparr>n_skipped := n_skipped st + 1\<rparr>)
          else
            (case mkdir_parents (disk st) (parent dst) of
               Inl e \<Rightarrow> (Inl e, st)
             | Inr fs1 \<Rightarrow>
                 (case late_collision F fs1 dst of
                    Inl e \<Rightarrow> (Inl e, st\<lparr>disk := fs1\<rparr>)
                  | Inr dst \<Rightarrow>
                      if dry then
                        (case stat_size_or_raise F fs1 src of
                           Inl e \<Rightarrow> (Inl e, st\<lparr>disk := fs1\<rparr>)
                         | Inr sz \<Rightarrow> (print_message F WouldMove, st\<lparr>disk := fs1\<rparr>))
                      else
                        (case copy_verify_delete H F fs1 src dst of
                           (Inl e, fs2) \<Rightarrow> (Inl e, st\<lparr>disk := fs2\<rparr>)
                         | (Inr sz, fs2) \<Rightarrow>
                             (print_message F Moved,
                              st\<lparr>n_bytes_moved := n_bytes_moved st + sz,
                                 applied := applied st @
                                   [\<lparr>mv_src = str_path src, mv_dst = str_path dst,
                                     mv_size = Some sz, mv_timestamp = Some now\<rparr>],
                                 disk := fs2\<rparr>)))))"

text \<open>
  One iteration of \<open>for row in rows\<close> in \<open>applier.apply_moves\<close>: the local variables
  after it. The handler \<open>except Exception\<close> counts whatever the body raised in
  \<open>errors\<close>.
\<close>

definition apply_row :: "env \<Rightarrow> bool \<Rightarrow> loop \<Rightarrow> plan_row \<Rightarrow> loop" where
  "apply_row E dry st row =
     (if op row \<noteq> ''move'' \<or> status row \<noteq> ''planned'' then st
      else
        let src = Path (src_path row);
            dst = Path (dst_path row);
            k = n_attempted st;
            st = st\<lparr>n_attempted := n_attempted st + 1\<rparr>
        in
          case apply_row_try (sha256_digest E) (faults_at E k) (time_at E k) dry st src dst of
            (Inl e, st') \<Rightarrow> st'\<lparr>n_errors := n_errors st' + 1\<rparr>
          | (Inr _, st') \<Rightarrow> st')"

text \<open>
  The handler then prints the error message, outside every \<open>try\<close>: when that \<open>print\<close>
  raises, the exception leaves the loop and \<open>apply_moves\<close>.
\<close>

definition apply_row_raises :: "env \<Rightarrow> bool \<Rightarrow> loop \<Rightarrow> plan_row \<Rightarrow> error option" where
  "apply_row_raises E dry st row =
     (if op row \<noteq> ''move'' \<or> status row \<noteq> ''planned'' then None
      else
        let src = Path (src_path row);
            dst = Path (dst_path row);
            k = n_attempted st;
            st = st\<lparr>n_attempted := n_attempted st + 1\<rparr>
        in
          case apply_row_try (sha256_digest E) (faults_at E k) (time_at E k) dry st src dst of
            (Inl e, st') \<Rightarrow>
              (case print_message (faults_at E k) MoveFailed of
                 Inl e' \<Rightarrow> Some e'
               | Inr _ \<Rightarrow> None)
          | (Inr _, st') \<Rightarrow> None)"

text \<open>The loop \<open>for row in rows\<close>: the exception that left it, if any, and the variables.\<close>

fun apply_loop :: "env \<Rightarrow> bool \<Rightarrow> loop \<Rightarrow> plan_row list \<Rightarrow> error option \<times> loop" where
  "apply_loop E dry st [] = (None, st)"
| "apply_loop E dry st (row # rows) =
     (case apply_row_raises E dry st row of
        Some e \<Rightarrow> (Some e, apply_row E dry st row)
      | None \<Rightarrow> apply_loop E dry (apply_row E dry st row) rows)"

text \<open>
  \<open>applier.apply_moves\<close>: the loop, then the checkpoint manifest, written whether or not
  the run is a dry run, then the returned statistics. A failure to write the manifest
  propagates to the caller.
\<close>

definition apply_moves ::
  "env \<Rightarrow> fs \<Rightarrow> plan_row list \<Rightarrow> path \<Rightarrow> bool \<Rightarrow> (error + apply_result) \<times> fs" where
  "apply_moves E fs rows checkpoint dry =
     (case apply_loop E dry (loop_init fs) rows of
        (Some e, st) \<Rightarrow> (Inl e, disk st)
      | (None, st) \<Rightarrow>
          let stats = \<lparr>attempted = n_attempted st, succeeded = length (applied st),
                       skipped = n_skipped st, errors = n_errors st,
                       bytes_moved = n_bytes_moved st\<rparr>
          in
            case mkdir_parents (disk st) (parent checkpoint) of
              Inl e \<Rightarrow> (Inl e, disk st)
            | Inr fs1 \<Rightarrow>
                (case write_text fs1 checkpoint
                        (json_dumps E (Manifest (time_at E (n_attempted st)) dry stats (applied st))) of
                   Inl e \<Rightarrow> (Inl e, fs1)
                 | Inr fs2 \<Rightarrow>
                     (Inr \<lparr>attempted = n_attempted st, succeeded = length (applied st),
                            skipped = n_skipped st, errors = n_errors st,
                            bytes_moved = n_bytes_moved st, dry_run = dry\<rparr>, fs2)))"

section \<open>The rename applier (dedupelab/applier.py)\<close>

text \<open>
  \<open>shutil.move(src, dst)\<close>: a move into \<open>dst\<close> when \<open>dst\<close> is a directory, otherwise
  \<open>os.rename\<close>. Its fallback to copy-and-delete on a failed rename is covered by the
  injected failure \<open>move_fails\<close>.
\<close>

definition shutil_move :: "faults \<Rightarrow> fs \<Rightarrow> path \<Rightarrow> path \<Rightarrow> error + fs" where
  "shutil_move F fs src dst =
     (if is_dir fs dst \<and> src = dst then os_rename fs src dst
      else
        let real_dst = (if is_dir fs dst then dst @ [name src] else dst) in
        if is_dir fs dst \<and> path_exists fs real_dst then Inl ShutilError
        else if move_fails F then Inl OSError
        else os_rename fs src real_dst)"

definition dedupelab_copy_verify_delete ::
  "(bytes \<Rightarrow> string) \<Rightarrow> faults \<Rightarrow> fs \<Rightarrow> path \<Rightarrow> path \<Rightarrow> (error + nat) \<times> fs" where
  "dedupelab_copy_verify_delete H F fs src dst =
     (if anchor src \<noteq> anchor dst then
        (case stat_size_or_raise F fs src of
           Inl e \<Rightarrow> (Inl e, fs)
         | Inr sz \<Rightarrow>
        (case copy_file F fs src dst of
           (Inl e, fs1) \<Rightarrow> (Inl e, fs1)
         | (Inr _, fs1) \<Rightarrow>
        (case fsync_file F fs1 dst of
           Inl e \<Rightarrow> (Inl e, fs1)
         | Inr _ \<Rightarrow>
        (case sha256_file H F fs1 src of
           Inl e \<Rightarrow> (Inl e, fs1)
         | Inr src_hash \<Rightarrow>
        (case sha256_file H F fs1 dst of
           Inl e \<Rightarrow> (Inl e, fs1)
         | Inr dst_hash \<Rightarrow>
        (if src_hash \<noteq> dst_hash then unlink_and_raise F fs1 dst
         else
        (case unlink (unlink_src_fails F) fs1 src of
           Inl e \<Rightarrow> (Inl e, fs1)
         | Inr fs2 \<Rightarrow> (Inr sz, fs2))))))))
      else
        (case shutil_move F fs src dst of
           Inl e \<Rightarrow> (Inl e, fs)
         | Inr fs1 \<Rightarrow>
             (case path_exists_or_raise F fs1 src of
                Inl e \<Rightarrow> (Inl e, fs1)
              | Inr found \<Rightarrow>
                  if found
                  then (case stat_size_or_raise F fs1 src of
                          Inl e \<Rightarrow> (Inl e, fs1)
                        | Inr sz \<Rightarrow> (Inr sz, fs1))
                  else (Inr 0, fs1))))"

text \<open>
  One iteration of \<open>for row in rows\<close> in \<open>dedupelab.applier.apply_moves\<close>; this applier
  prints nothing.
\<close>

definition dedupelab_apply_row :: "env \<Rightarrow> bool \<Rightarrow> loop \<Rightarrow> plan_row \<Rightarrow> loop" where
  "dedupelab_apply_row E dry st row =
     (if op row \<noteq> ''move'' \<or> status row \<noteq> ''planned'' then st
      else
        let src = Path (src_path row);
            dst = Path (dst_path row);
            k = n_attempted st;
            st = st\<lparr>n_attempted := n_attempted st + 1\<rparr>
        in
          case path_exists_or_raise (faults_at E k) (disk st) src of
            Inl e \<Rightarrow> st\<lparr>n_errors := n_errors st + 1\<rparr>
          | Inr found \<Rightarrow>
              if \<not> found then st\<lparr>n_skipped := n_skipped st + 1\<rparr>
              else
                (case mkdir_parents (disk st) (parent dst) of
                   Inl e \<Rightarrow> st\<lparr>n_errors := n_errors st + 1\<rparr>
                 | Inr fs1 \<Rightarrow>
                     (case unique_if_exists_or_raise (faults_at E k) fs1 dst of
                        Inl e \<Rightarrow> st\<lparr>n_errors := n_errors st + 1, disk := fs1\<rparr>
                      | Inr dst \<Rightarrow>
                          if dry then st\<lparr>disk := fs1\<rparr>
                          else
                            (case dedupelab_copy_verify_delete (sha256_digest E) (faults_at E k)
                                    fs1 src dst of
                               (Inl e, fs2) \<Rightarrow> st\<lparr>n_errors := n_errors st + 1, disk := fs2\<rparr>
                             | (Inr sz, fs2) \<Rightarrow>
                                 st\<lparr>n_bytes_moved := n_bytes_moved st + sz,
                                    applied := applied st @
                                      [\<lparr>mv_src = str_path src, mv_dst = str_path dst,
                                        mv_size = None, mv_timestamp = None\<rparr>],
                                    disk := fs2\<rparr>))))"

definition dedupelab_apply_moves ::
  "env \<Rightarrow> fs \<Rightarrow> plan_row list \<Rightarrow> path \<Rightarrow> bool \<Rightarrow> (error + statistics) \<times> fs" where
  "dedupelab_apply_moves E fs rows checkpoint dry =
     (let st = foldl (dedupelab_apply_row E dry) (loop_init fs) rows in
        case mkdir_parents (disk st) (parent checkpoint) of
          Inl e \<Rightarrow> (Inl e, disk st)
        | Inr fs1 \<Rightarrow>
            (case write_text fs1 checkpoint
                    (json_dumps E (ManifestTs (time_at E (n_attempted st)) (applied st))) of
               Inl e \<Rightarrow> (Inl e, fs1)
             | Inr fs2 \<Rightarrow>
                 (Inr \<lparr>attempted = n_attempted st, succeeded = length (applied st),
                        skipped = n_skipped st, errors = n_errors st,
                        bytes_moved = n_bytes_moved st\<rparr>, fs2)))"

section \<open>Rollback (dedupelab/rollback.py)\<close>

record rollback_loop =
  n_restored :: nat
  n_rollback_errors :: nat
  rollback_disk :: fs


text \<open>
  One iteration of \<open>for mv in reversed(moves)\<close>, handling the \<open>k\<close>-th entry. Everything
  from \<open>mkdir\<close> to \<open>shutil.move\<close> is inside the \<open>try\<close>, the two \<open>exists()\<close> and the
  ones of \<open>ensure_unique\<close> included, and \<open>except Exception\<close> counts what they raise.
\<close>

definition rollback_entry :: "env \<Rightarrow> rollback_loop \<Rightarrow> nat \<times> move_entry \<Rightarrow> rollback_loop" where
  "rollback_entry E st kmv =
     (let src_now = Path (mv_dst (snd kmv));
          dst_restore = Path (mv_src (snd kmv));
          F = faults_at E (fst kmv)
      in
        case mkdir_parents (rollback_disk st) (parent dst_restore) of
          Inl e \<Rightarrow> st\<lparr>n_rollback_errors := n_rollback_errors st + 1\<rparr>
        | Inr fs1 \<Rightarrow>
            (case unique_if_exists_or_raise F fs1 dst_restore of
               Inl e \<Rightarrow> st\<lparr>n_rollback_errors := n_rollback_errors st + 1, rollback_disk := fs1\<rparr>
             | Inr dst_restore \<Rightarrow>
                 (case path_exists_or_raise F fs1 src_now of
                    Inl e \<Rightarrow> st\<lparr>n_rollback_errors := n_rollback_errors st + 1,
                               rollback_disk := fs1\<rparr>
                  | Inr found \<Rightarrow>
                      if found then
                        (case shutil_move F fs1 src_now dst_restore of
                           Inl e \<Rightarrow> st\<lparr>n_rollback_errors := n_rollback_errors st + 1,
                                      rollback_disk := fs1\<rparr>
                         | Inr fs2 \<Rightarrow> st\<lparr>n_restored := n_restored st + 1, rollback_disk := fs2\<rparr>)
                      else st\<lparr>rollback_disk := fs1\<rparr>)))"

text \<open>The loop of \<open>rollback_from_checkpoint\<close> over the moves of a parsed manifest.\<close>

definition rollback_moves :: "env \<Rightarrow> fs \<Rightarrow> move_entry list \<Rightarrow> rollback_loop" where
  "rollback_moves E fs ms =
     foldl (rollback_entry E)
       \<lparr>n_restored = 0, n_rollback_errors = 0, rollback_disk = fs\<rparr>
       (enumerate 0 (rev ms))"


section \<open>The store (db.py)\<close>

record file_record =
  path :: string
  fsize :: nat
  mtime :: nat
  sha256 :: string
  mime :: string
  context_tag :: string

text \<open>
  The table \<open>files\<close> is the list of its rows in rowid order. \<open>upsert_files\<close> inserts a
  row, or on a conflict on \<open>path\<close> updates the row in place.
\<close>

fun upsert :: "file_record \<Rightarrow> file_record list \<Rightarrow> file_record list" where
  "upsert r [] = [r]"
| "upsert r (x # xs) = (if path x = path r then r # xs else x # upsert r xs)"

definition upsert_files :: "file_record list \<Rightarrow> file_record list \<Rightarrow> file_record list" where
  "upsert_files files records = foldl (\<lambda>db r. upsert r db) files records"

text \<open>
  \<open>SELECT sha256, context_tag, GROUP_CONCAT(path, '|') FROM files
   GROUP BY sha256, context_tag HAVING COUNT(*) > 1\<close>: the rows are partitioned by the pair
  of grouping columns, groups of one row are dropped, and the paths of a group are
  concatenated with the separator. SQLite walks the groups in ascending key order and
  the rows of a group in rowid order.
\<close>

definition group_key :: "file_record \<Rightarrow> string \<times> string" where
  "group_key r = (sha256 r, context_tag r)"

definition group_rows :: "file_record list \<Rightarrow> string \<times> string \<Rightarrow> file_record list" where
  "group_rows files k = filter (\<lambda>r. group_key r = k) files"

definition get_duplicates :: "file_record list \<Rightarrow> (string \<times> string \<times> string) list" where
  "get_duplicates files =
     map (\<lambda>k. (fst k, snd k, str_join ''|'' (map path (group_rows files k))))
       (filter (\<lambda>k. 1 < length (group_rows files k))
          (sort (remdups (map group_key files))))"

section \<open>The planner (cli.py, dedupelab/planner.py)\<close>

text \<open>
  \<open>datetime.utcnow().replace(microsecond=0).isoformat() + "Z"\<close>, from the reading of the
  clock.
\<close>

record datetime =
  year :: nat
  month :: nat
  day :: nat
  hour :: nat
  minute :: nat
  second :: nat

definition iso_now :: "datetime \<Rightarrow> string" where
  "iso_now t =
     zero_pad 4 (year t) @ ''-'' @ zero_pad 2 (month t) @ ''-'' @ zero_pad 2 (day t) @ ''T'' @
     zero_pad 2 (hour t) @ '':'' @ zero_pad 2 (minute t) @ '':'' @ zero_pad 2 (second t) @ ''Z''"

text \<open>The body of \<open>for src in paths[1:]\<close> in \<open>cmd_plan\<close>, on the pair \<open>(rows, rbk)\<close>.\<close>

definition plan_src ::
  "fs \<Rightarrow> string \<Rightarrow> string \<Rightarrow> string \<Rightarrow> plan_row list \<times> nat \<Rightarrow> string \<Rightarrow> plan_row list \<times> nat" where
  "plan_src fs t sha ctx acc src_str =
     (let srcp = Path src_str;
          dup_dir = parent srcp @ [''.deduplab_duplicates''];
          dst = ensure_unique fs (dup_dir @ Path (name srcp))
      in (fst acc @
            [\<lparr>status = ''planned'', op = ''move'', src_path = src_str,
              dst_path = str_path dst,
              content_id = ''b3:sha256:'' @ sha @ '':ctx:'' @ ctx,
              reason = ''dedup'',
              rollback_key = ''rbk:'' @ zero_pad 6 (snd acc),
              ts = t\<rparr>],
          snd acc + 1))"

text \<open>The body of \<open>for sha, context_tag, paths_csv in dups\<close>; the keeper is \<open>paths[0]\<close>.\<close>

definition plan_group ::
  "fs \<Rightarrow> string \<Rightarrow> plan_row list \<times> nat \<Rightarrow> string \<times> string \<times> string \<Rightarrow> plan_row list \<times> nat" where
  "plan_group fs t acc g =
     (let paths = sort (str_split (CHR ''|'') (snd (snd g))) in
      foldl (plan_src fs t (fst g) (fst (snd g))) acc (tl paths))"

definition plan_rows :: "fs \<Rightarrow> file_record list \<Rightarrow> datetime \<Rightarrow> plan_row list" where
  "plan_rows fs files now =
     fst (foldl (plan_group fs (iso_now now)) ([], 0) (get_duplicates files))"

text \<open>
  Two accumulators of the planner's loops agree up to the time stamp: the same counter,
  and the same rows once every \<open>ts\<close> is set to \<open>t\<close>.
\<close>

definition same_but_ts :: "string \<Rightarrow> plan_row list \<times> nat \<Rightarrow> plan_row list \<times> nat \<Rightarrow> bool" where
  "same_but_ts t acc acc' \<longleftrightarrow> fst acc = map (\<lambda>r. r\<lparr>ts := t\<rparr>) (fst acc') \<and> snd acc = snd acc'"

text \<open>
  \<open>write_plan_csv\<close>: \<open>csv.DictWriter\<close> with its default dialect writes the header and
  one line per row, fields joined by commas, lines ended by CR LF; a field holding a
  comma, a quote, CR or LF is quoted, with its quotes doubled.
\<close>

definition csv_field :: "string \<Rightarrow> string" where
  "csv_field s =
     (if list_ex (\<lambda>c. c \<in> set s) [CHR '','', CHR 0x22, CHR 0x0D, CHR 0x0A]
      then CHR 0x22 # concat (map (\<lambda>c. if c = CHR 0x22 then [c, c] else [c]) s) @ [CHR 0x22]
      else s)"

definition csv_line :: "string list \<Rightarrow> string" where
  "csv_line cells = str_join '','' (map csv_field cells) @ [CHR 0x0D, CHR 0x0A]"

definition fieldnames :: "string list" where
  "fieldnames = [''status'', ''op'', ''src_path'', ''dst_path'', ''content_id'', ''reason'',
     ''rollback_key'', ''ts'']"

definition row_fields :: "plan_row \<Rightarrow> string list" where
  "row_fields r = [status r, op r, src_path r, dst_path r, content_id r, reason r,
     rollback_key r, ts r]"

definition write_plan_csv :: "plan_row list \<Rightarrow> bytes" where
  "write_plan_csv rows = csv_line fieldnames @ concat (map (csv_line \<circ> row_fields) rows)"

text \<open>\<open>cmd_plan\<close>: the bytes written to the plan file.\<close>

definition cmd_plan :: "fs \<Rightarrow> file_record list \<Rightarrow> datetime \<Rightarrow> bytes" where
  "cmd_plan fs files now = write_plan_csv (plan_rows fs files now)"

section \<open>The scanner (scanner.py)\<close>

definition ARCHIVE_EXTENSIONS :: "string list" where
  "ARCHIVE_EXTENSIONS = [''.zip'', ''.7z'', ''.tar'', ''.gz'', ''.bz2'', ''.xz'', ''.rar'',
     ''.tar.gz'', ''.tar.bz2'', ''.tar.xz'', ''.tgz'', ''.tbz2'']"

definition EXTRACTION_MARKERS :: "string list" where
  "EXTRACTION_MARKERS = [''extracted'', ''unzipped'', ''unpacked'', ''unarchived'',
     ''decompressed'', ''unrar'', ''untar'']"

text \<open>
  The loop \<open>for ext in ARCHIVE_EXTENSIONS\<close> of the adjacent-archive check:
  \<open>parent.with_name(parent.name + ext)\<close> raises when \<open>parent\<close> has an empty name.
\<close>

fun adjacent_archive :: "fs \<Rightarrow> path \<Rightarrow> string list \<Rightarrow> error + bool" where
  "adjacent_archive fs par [] = Inr False"
| "adjacent_archive fs par (ext # exts) =
     (case with_name par (name par @ ext) of
        Inl e \<Rightarrow> Inl e
      | Inr archive_candidate \<Rightarrow>
          if path_exists fs archive_candidate \<and> is_file fs archive_candidate then Inr True
          else adjacent_archive fs par exts)"

definition archive_like_name :: "string \<Rightarrow> bool" where
  "archive_like_name parent_name \<longleftrightarrow>
     list_ex (\<lambda>ext. sublist (replace_dot ''_'' ext) parent_name
                  \<or> sublist (replace_dot [] ext) parent_name) ARCHIVE_EXTENSIONS"

text \<open>The loop \<open>for parent in path.parents\<close> of \<open>_is_inside_archive\<close>.\<close>

fun inside_archive_loop :: "fs \<Rightarrow> path list \<Rightarrow> error + bool" where
  "inside_archive_loop fs [] = Inr False"
| "inside_archive_loop fs (par # pars) =
     (let parent_name = lower (name par) in
      if list_ex (\<lambda>marker. sublist marker parent_name) EXTRACTION_MARKERS then Inr True
      else (case adjacent_archive fs par ARCHIVE_EXTENSIONS of
              Inl e \<Rightarrow> Inl e
            | Inr found \<Rightarrow>
                if found then Inr True
                else if archive_like_name parent_name then Inr True
                else inside_archive_loop fs pars))"

definition is_inside_archive :: "fs \<Rightarrow> path \<Rightarrow> error + bool" where
  "is_inside_archive fs p = inside_archive_loop fs (parents p)"

definition detect_context :: "fs \<Rightarrow> path \<Rightarrow> error + string" where
  "detect_context fs p =
     (case is_inside_archive fs p of
        Inl e \<Rightarrow> Inl e
      | Inr inside \<Rightarrow> Inr (if inside then ''archived'' else ''unarchived''))"

text \<open>\<open>_should_skip\<close>: \<open>p.parts\<close> of an absolute path starts with the root \<open>/\<close>.\<close>

definition should_skip :: "path \<Rightarrow> string list \<Rightarrow> bool" where
  "should_skip p ignore \<longleftrightarrow> list_ex (\<lambda>ig. ig \<in> set (''/'' # p)) ignore"

text \<open>\<open>rp.rglob("*")\<close>: everything below \<open>rp\<close>, in the order of the table.\<close>

definition rglob :: "fs \<Rightarrow> path \<Rightarrow> path list" where
  "rglob fs rp = filter (strict_prefix rp) (remdups (map fst fs))"

definition iter_files :: "fs \<Rightarrow> string list \<Rightarrow> string list \<Rightarrow> path list" where
  "iter_files fs roots ignore =
     concat (map (\<lambda>r. let rp = Path r in
                       if \<not> path_exists fs rp then []
                       else filter (\<lambda>p. is_file fs p \<and> \<not> should_skip p ignore) (rglob fs rp))
                roots)"

text \<open>
  The work done for one file in \<open>threaded_hash\<close>: the hash, \<open>stat\<close>, the MIME type and
  the context tag; an exception in any of them drops the file. The modification time
  and the MIME table are parameters.
\<close>

definition scan_file ::
  "(bytes \<Rightarrow> string) \<Rightarrow> (path \<Rightarrow> nat) \<Rightarrow> (path \<Rightarrow> string) \<Rightarrow> fs \<Rightarrow> path \<Rightarrow> error + file_record" where
  "scan_file H st_mtime get_mime_safe fs p =
     (case sha256_file H no_faults fs p of
        Inl e \<Rightarrow> Inl e
      | Inr sha \<Rightarrow>
          (case stat_size fs p of
             Inl e \<Rightarrow> Inl e
           | Inr sz \<Rightarrow>
               (case detect_context fs p of
                  Inl e \<Rightarrow> Inl e
                | Inr context \<Rightarrow>
                    Inr \<lparr>path = str_path p, fsize = sz, mtime = st_mtime p, sha256 = sha,
                         mime = get_mime_safe p, context_tag = context\<rparr>)))"

text \<open>
  \<open>threaded_hash\<close> returns the records and the number of files found (the duration is
  left out). The order in which the workers finish is not modelled: the records are in
  the order of the files.
\<close>

definition threaded_hash ::
  "(bytes \<Rightarrow> string) \<Rightarrow> (path \<Rightarrow> nat) \<Rightarrow> (path \<Rightarrow> string) \<Rightarrow> fs \<Rightarrow> string list \<Rightarrow> string list
     \<Rightarrow> file_record list \<times> nat" where
  "threaded_hash H st_mtime get_mime_safe fs roots ignore =
     (let files = iter_files fs roots ignore in
      (concat (map (\<lambda>p. case scan_file H st_mtime get_mime_safe fs p of
                           Inl e \<Rightarrow> []
                         | Inr r \<Rightarrow> [r]) files),
       length files))"

section \<open>Example inputs\<close>

text \<open>
  Scenario A of the specification: \<open>/r/a.txt\<close> and \<open>/r/b.txt\<close>, each holding
  \<open>hello\<close>, and the plan row that moves \<open>b.txt\<close> into the quarantine directory.
  The example environment injects no failure; its hash is the identity, which is
  enough to tell different contents apart.
\<close>

definition example_env :: env where
  "example_env = \<lparr>sha256_digest = (\<lambda>b. b), json_dumps = (\<lambda>m. ''{}''),
     json_loads = (\<lambda>b. None), time_at = (\<lambda>k. 1000 + k),
     faults_at = (\<lambda>k. no_faults)\<rparr>"

definition scenario_A :: fs where
  "scenario_A = [([''r''], Dir), ([''r'', ''a.txt''], File ''hello''),
     ([''r'', ''b.txt''], File ''hello'')]"

definition row_A :: plan_row where
  "row_A = \<lparr>status = ''planned'', op = ''move'', src_path = ''/r/b.txt'',
     dst_path = ''/r/.deduplab_duplicates/b.txt'',
     content_id = ''b3:sha256:2cf24d:ctx:unarchived'', reason = ''dedup'',
     rollback_key = ''rbk:000000'', ts = ''2025-01-01T00:00:00Z''\<rparr>"

text \<open>The filesystem after the forced apply of Scenario A, checkpoint included.\<close>

definition scenario_A_applied :: fs where
  "scenario_A_applied = [([''cp.json''], File ''{}''),
     ([''r'', ''.deduplab_duplicates'', ''b.txt''], File ''hello''),
     ([''r'', ''.deduplab_duplicates''], Dir), ([''r''], Dir),
     ([''r'', ''a.txt''], File ''hello'')]"

text \<open>
  The store after scanning Scenario A, a store with a path that contains \<open>|\<close>, and two
  readings of the clock.
\<close>

definition store_A :: "file_record list" where
  "store_A = [
     \<lparr>path = ''/r/b.txt'', fsize = 5, mtime = 0, sha256 = ''2cf24d'', mime = ''text/plain'',
       context_tag = ''unarchived''\<rparr>,
     \<lparr>path = ''/r/a.txt'', fsize = 5, mtime = 0, sha256 = ''2cf24d'', mime = ''text/plain'',
       context_tag = ''unarchived''\<rparr>]"

definition store_with_separator :: "file_record list" where
  "store_with_separator = [
     \<lparr>path = ''/r/m.txt'', fsize = 5, mtime = 0, sha256 = ''2cf24d'', mime = ''text/plain'',
       context_tag = ''unarchived''\<rparr>,
     \<lparr>path = ''/r/n|/r/a.txt'', fsize = 5, mtime = 0, sha256 = ''2cf24d'', mime = ''text/plain'',
       context_tag = ''unarchived''\<rparr>]"

definition noon :: datetime where
  "noon = \<lparr>year = 2025, month = 1, day = 2, hour = 12, minute = 0, second = 0\<rparr>"

definition noon_and_a_second :: datetime where
  "noon_and_a_second = \<lparr>year = 2025, month = 1, day = 2, hour = 12, minute = 0,
     second = 1\<rparr>"



definition entry_A :: move_entry where
  "entry_A = \<lparr>mv_src = ''/r/b.txt'', mv_dst = ''/r/.deduplab_duplicates/b.txt'',
     mv_size = Some 5, mv_timestamp = Some 1000\<rparr>"

definition scenario_A_rolled_back :: fs where
  "scenario_A_rolled_back = [([''cp.json''], File ''{}''), ([''r''], Dir),
     ([''r'', ''a.txt''], File ''hello''), ([''r'', ''b.txt''], File ''hello'')]"


text \<open>An environment in which \<open>os.stat\<close> refuses the quarantine path of Scenario A.\<close>

definition refusing_stat_env :: env where
  "refusing_stat_env = example_env\<lparr>faults_at :=
     (\<lambda>k. no_faults\<lparr>stat_raises := (\<lambda>p. p = [''r'', ''.deduplab_duplicates'', ''b.txt''])\<rparr>)\<rparr>"

text \<open>
  Inputs for the strict applier: the filesystem of Scenario A once the quarantine
  directory exists; an environment in which \<open>fsync\<close> fails; one in which the copy fails
  after two bytes and the temporary file cannot be unlinked; one whose standard output
  cannot encode the arrow of the two messages printed there; a hand-written row whose
  source is the temporary path of its own destination; and a hand-written row whose
  destination is its source.
\<close>

definition quarantine_made :: fs where
  "quarantine_made = ([''r'', ''.deduplab_duplicates''], Dir) # scenario_A"

definition fsync_fault_env :: env where
  "fsync_fault_env = example_env\<lparr>faults_at := (\<lambda>k. no_faults\<lparr>fsync_fails := True\<rparr>)\<rparr>"



definition row_aliased :: plan_row where
  "row_aliased = row_A\<lparr>src_path := ''/r/b.txt.tmp'', dst_path := ''/r/b.txt''\<rparr>"

definition scenario_aliased :: fs where
  "scenario_aliased = [([''r''], Dir), ([''r'', ''b.txt.tmp''], File ''hello'')]"

definition row_same_path :: plan_row where
  "row_same_path = row_A\<lparr>dst_path := ''/r/b.txt''\<rparr>"

section \<open>Termination of the uniqueness rule\<close>

text \<open>
  Decimal numerals are injective, so the candidates of \<open>ensure_unique\<close> are pairwise
  different; only finitely many of them exist in a filesystem, and the loop ends.
\<close>

lemma digit_inj: "a < 10 \<Longrightarrow> b < 10 \<Longrightarrow> digit a = digit b \<Longrightarrow> a = b"
proof -
  assume a: "a < 10" and b: "b < 10" and e: "digit a = digit b"
  have d: "distinct ''0123456789''" by simp
  have "length ''0123456789'' = 10" by simp
  with a b e d show ?thesis unfolding digit_def
    by (metis nth_eq_iff_index_eq)
qed

lemma str_nat_nonempty: "str_nat n \<noteq> []"
  by (subst str_nat.simps) simp

lemma str_nat_inj: "str_nat m = str_nat n \<Longrightarrow> m = n"
proof (induction m arbitrary: n rule: str_nat.induct)
  case (1 m)
  show ?case
  proof (cases "m < 10")
    case True
    with "1.prems" have "str_nat n = [digit m]" by (subst (asm) str_nat.simps) simp
    then have n: "n < 10" using str_nat_nonempty[of "n div 10"]
      by (subst (asm) str_nat.simps) (auto split: if_splits)
    then have "str_nat n = [digit n]" by (subst str_nat.simps) simp
    with \<open>str_nat n = [digit m]\<close> True n show ?thesis by (auto dest: digit_inj)
  next
    case False
    then have m: "str_nat m = str_nat (m div 10) @ [digit (m mod 10)]"
      by (subst str_nat.simps) simp
    have n: "\<not> n < 10"
    proof
      assume "n < 10"
      then have "str_nat n = [digit n]" by (subst str_nat.simps) simp
      with m "1.prems" str_nat_nonempty[of "m div 10"] show False by auto
    qed
    then have "str_nat n = str_nat (n div 10) @ [digit (n mod 10)]"
      by (subst str_nat.simps) simp
    with m "1.prems" have a: "str_nat (m div 10) = str_nat (n div 10)"
      and b: "digit (m mod 10) = digit (n mod 10)" by auto
    from "1.IH"[OF False a] have "m div 10 = n div 10" .
    moreover from b have "m mod 10 = n mod 10" by (intro digit_inj) simp_all
    ultimately show ?thesis by (metis div_mult_mod_eq)
  qed
qed

lemma candidate_inj: "candidate dst i = candidate dst j \<Longrightarrow> i = j"
  by (auto simp: candidate_def dest: str_nat_inj)

lemma candidate_nonempty [simp]: "candidate dst i \<noteq> []"
  by (simp add: candidate_def)

lemma finite_candidates: "finite {j. path_exists fs (candidate dst j)}"
proof -
  have "{j. path_exists fs (candidate dst j)} \<subseteq> candidate dst -` (fst ` set fs)"
    by (force simp: path_exists_def lookup_def dest!: map_of_SomeD)
  moreover have "finite (candidate dst -` (fst ` set fs))"
    by (rule finite_vimageI) (auto simp: inj_on_def dest: candidate_inj)
  ultimately show ?thesis by (rule finite_subset)
qed

termination ensure_unique_from
proof (relation "measure (\<lambda>(fs, dst, i). card {j. i \<le> j \<and> path_exists fs (candidate dst j)})",
    goal_cases)
  case 1
  show ?case by simp
next
  case (2 fs dst i)
  let ?A = "{j. i \<le> j \<and> path_exists fs (candidate dst j)}"
  let ?B = "{j. i + 1 \<le> j \<and> path_exists fs (candidate dst j)}"
  have fin: "finite ?A" using finite_candidates[of fs dst] by (rule rev_finite_subset) auto
  from 2 have "i \<in> ?A" "i \<notin> ?B" by auto
  moreover have "?B \<subseteq> ?A" by auto
  ultimately have "?B \<subset> ?A" by blast
  with fin have "card ?B < card ?A" by (rule psubset_card_mono)
  then show ?case by simp
qed

declare ensure_unique_from.simps [simp del]

termination ensure_unique_from_or_raise
proof (relation "measure (\<lambda>(F, fs, dst, i). card {j. i \<le> j \<and> path_exists fs (candidate dst j)})",
    goal_cases)
  case 1
  show ?case by simp
next
  case (2 F fs dst i found)
  let ?A = "{j. i \<le> j \<and> path_exists fs (candidate dst j)}"
  let ?B = "{j. i + 1 \<le> j \<and> path_exists fs (candidate dst j)}"
  have fin: "finite ?A" using finite_candidates[of fs dst] by (rule rev_finite_subset) auto
  from 2 have "path_exists fs (candidate dst i)"
    by (auto simp: path_exists_or_raise_def split: if_splits)
  then have "i \<in> ?A" "i \<notin> ?B" by auto
  moreover have "?B \<subseteq> ?A" by auto
  ultimately have "?B \<subset> ?A" by blast
  with fin have "card ?B < card ?A" by (rule psubset_card_mono)
  then show ?case by simp
qed

declare ensure_unique_from_or_raise.simps [simp del]

section \<open>Lemmas about the filesystem and the uniqueness rule\<close>

lemma map_of_fs_del: "map_of (fs_del p fs) q = (if q = p then None else map_of fs q)"
  by (induction fs) (auto simp: fs_del_def)

lemma lookup_fs_del: "lookup (fs_del p fs) q = (if q = p \<and> q \<noteq> [] then None else lookup fs q)"
  by (simp add: lookup_def map_of_fs_del)

lemma lookup_fs_put:
  "lookup (fs_put p n fs) q = (if q = [] then Some Dir else if q = p then Some n else lookup fs q)"
  by (simp add: lookup_def fs_put_def map_of_fs_del)

lemma lookup_root [simp]: "lookup fs [] = Some Dir"
  by (simp add: lookup_def)

lemma mkdir_parents_lookup:
  "mkdir_parents fs p = Inr fs' \<Longrightarrow>
     lookup fs' p = Some Dir \<and>
     (\<forall>q. lookup fs' q = lookup fs q \<or> (lookup fs q = None \<and> lookup fs' q = Some Dir))"
proof (induction fs p arbitrary: fs' rule: mkdir_parents.induct)
  case (1 fs p)
  show ?case
  proof (cases "lookup fs p")
    case None
    with "1.prems" obtain fs1 where m: "mkdir_parents fs (parent p) = Inr fs1"
      and fs': "fs' = fs_put p Dir fs1"
      by (subst (asm) mkdir_parents.simps) (auto split: sum.splits)
    from None have "p \<noteq> []" by (auto simp: lookup_def)
    from "1.IH"[OF None m] have
      ih: "\<forall>q. lookup fs1 q = lookup fs q \<or> (lookup fs q = None \<and> lookup fs1 q = Some Dir)"
      by simp
    show ?thesis
    proof (intro conjI allI)
      show "lookup fs' p = Some Dir" using fs' \<open>p \<noteq> []\<close> by (simp add: lookup_fs_put)
    next
      fix q
      show "lookup fs' q = lookup fs q \<or> (lookup fs q = None \<and> lookup fs' q = Some Dir)"
        using ih[rule_format, of q] None fs' by (auto simp: lookup_fs_put)
    qed
  next
    case (Some n)
    with "1.prems" show ?thesis
      by (subst (asm) mkdir_parents.simps) (auto split: node.splits)
  qed
qed

lemma mkdir_parents_is_dir: "mkdir_parents fs p = Inr fs' \<Longrightarrow> lookup fs' p = Some Dir"
  by (simp add: mkdir_parents_lookup)

lemma mkdir_parents_keeps:
  "mkdir_parents fs p = Inr fs' \<Longrightarrow> lookup fs q = Some n \<Longrightarrow> lookup fs' q = Some n"
  using mkdir_parents_lookup[of fs p fs'] by (metis option.distinct(1))

lemma mkdir_parents_file:
  "mkdir_parents fs p = Inr fs' \<Longrightarrow> lookup fs' q = Some (File c) \<longleftrightarrow> lookup fs q = Some (File c)"
  using mkdir_parents_lookup[of fs p fs'] by (metis node.distinct(1) option.inject option.distinct(1))

lemma mkdir_parents_existing: "lookup fs p = Some Dir \<Longrightarrow> mkdir_parents fs p = Inr fs"
  by (subst mkdir_parents.simps) simp

lemma ensure_unique_from_fresh: "\<not> path_exists fs (ensure_unique_from fs dst i)"
  by (induction fs dst i rule: ensure_unique_from.induct)
     (subst ensure_unique_from.simps, simp)

lemma ensure_unique_from_candidate: "\<exists>j\<ge>i. ensure_unique_from fs dst i = candidate dst j"
proof (induction fs dst i rule: ensure_unique_from.induct)
  case (1 fs dst i)
  show ?case
  proof (cases "path_exists fs (candidate dst i)")
    case True
    from "1.IH" True obtain j where "j \<ge> i + 1" "ensure_unique_from fs dst (i + 1) = candidate dst j" by auto
    with True show ?thesis by (subst ensure_unique_from.simps) (auto intro!: exI[of _ j])
  next
    case False
    then show ?thesis by (subst ensure_unique_from.simps) auto
  qed
qed

lemma ensure_unique_fresh: "\<not> path_exists fs (ensure_unique fs dst)"
  by (simp add: ensure_unique_def ensure_unique_from_fresh)

text \<open>
  Whenever the uniqueness rule returns under failing \<open>stat\<close> calls, it returns the path
  of \<open>ensure_unique\<close>; when no \<open>stat\<close> raises, it returns.
\<close>

lemma ensure_unique_from_or_raise_value:
  "ensure_unique_from_or_raise F fs dst i = Inr q \<Longrightarrow> q = ensure_unique_from fs dst i"
proof (induction F fs dst i rule: ensure_unique_from_or_raise.induct)
  case (1 F fs dst i)
  show ?case
  proof (cases "path_exists fs (candidate dst i)")
    case True
    with "1.prems" have r: "\<not> stat_raises F (candidate dst i)"
      and n: "ensure_unique_from_or_raise F fs dst (i + 1) = Inr q"
      by (subst (asm) ensure_unique_from_or_raise.simps,
          auto simp: path_exists_or_raise_def split: if_splits)+
    from r True have "path_exists_or_raise F fs (candidate dst i) = Inr True"
      by (simp add: path_exists_or_raise_def)
    from "1.IH"[OF this _ n] have "q = ensure_unique_from fs dst (i + 1)" by simp
    with True show ?thesis by (subst ensure_unique_from.simps) simp
  next
    case False
    with "1.prems" have "q = candidate dst i"
      by (subst (asm) ensure_unique_from_or_raise.simps)
         (auto simp: path_exists_or_raise_def split: if_splits)
    with False show ?thesis by (subst ensure_unique_from.simps) simp
  qed
qed

lemma ensure_unique_or_raise_value:
  "ensure_unique_or_raise F fs dst = Inr q \<Longrightarrow> q = ensure_unique fs dst"
  by (auto simp: ensure_unique_or_raise_def ensure_unique_def path_exists_or_raise_def
      dest: ensure_unique_from_or_raise_value split: if_splits)

lemma unique_if_exists_or_raise_value:
  "unique_if_exists_or_raise F fs dst = Inr q \<Longrightarrow> q = unique_if_exists fs dst"
  by (auto simp: unique_if_exists_or_raise_def unique_if_exists_def path_exists_or_raise_def
      dest: ensure_unique_or_raise_value split: if_splits)

lemma late_collision_value:
  "late_collision F fs dst = Inr q \<Longrightarrow> q = unique_if_exists fs dst"
  by (auto simp: late_collision_def unique_if_exists_def path_exists_or_raise_def
      dest: ensure_unique_or_raise_value split: if_splits sum.splits)

lemma ensure_unique_from_or_raise_returns:
  "\<forall>p. \<not> stat_raises F p \<Longrightarrow>
     ensure_unique_from_or_raise F fs dst i = Inr (ensure_unique_from fs dst i)"
proof (induction F fs dst i rule: ensure_unique_from_or_raise.induct)
  case (1 F fs dst i)
  from "1.prems" have e: "path_exists_or_raise F fs (candidate dst i)
      = Inr (path_exists fs (candidate dst i))"
    by (simp add: path_exists_or_raise_def)
  show ?case
  proof (cases "path_exists fs (candidate dst i)")
    case True
    with e have "path_exists_or_raise F fs (candidate dst i) = Inr True" by simp
    from "1.IH"[OF this _ "1.prems"]
    have "ensure_unique_from_or_raise F fs dst (i + 1) = Inr (ensure_unique_from fs dst (i + 1))"
      by simp
    with True e show ?thesis
      by (subst ensure_unique_from_or_raise.simps, subst ensure_unique_from.simps) simp
  next
    case False
    with e show ?thesis
      by (subst ensure_unique_from_or_raise.simps, subst ensure_unique_from.simps) simp
  qed
qed


lemma late_collision_returns:
  "\<forall>p. \<not> stat_raises F p \<Longrightarrow> \<not> print_fails F DestinationExists \<Longrightarrow>
     late_collision F fs dst = Inr (unique_if_exists fs dst)"
  by (simp add: late_collision_def unique_if_exists_def ensure_unique_or_raise_def
      ensure_unique_def path_exists_or_raise_def ensure_unique_from_or_raise_returns
      print_message_def)

section \<open>Lemmas about the loop of the strict applier\<close>

lemma apply_row_other: "\<not> planned row \<Longrightarrow> apply_row E dry st row = st"
  by (auto simp: apply_row_def planned_def)

lemma apply_row_unfold:
  "planned row \<Longrightarrow>
     apply_row E dry st row =
       (case apply_row_try (sha256_digest E) (faults_at E (n_attempted st))
               (time_at E (n_attempted st)) dry (st\<lparr>n_attempted := n_attempted st + 1\<rparr>)
               (Path (src_path row)) (Path (dst_path row)) of
          (Inl e, st') \<Rightarrow> st'\<lparr>n_errors := n_errors st' + 1\<rparr>
        | (Inr u, st') \<Rightarrow> st')"
  by (simp add: apply_row_def planned_def Let_def)

text \<open>
  The body of the \<open>try\<close> leaves \<open>attempted\<close> and \<open>errors\<close> alone and does one of three
  things: it raises with nothing counted, it counts the row as skipped, or it records
  the move; after the last two it still raises when the message cannot be printed.
\<close>

lemma apply_row_try_counters:
  assumes "apply_row_try H F t dry st src dst = (r, st')"
  shows "n_attempted st' = n_attempted st \<and> n_errors st' = n_errors st"
  using assms
  by (auto simp: apply_row_try_def split: sum.splits prod.splits if_splits)

lemma apply_row_try_outcome:
  assumes "apply_row_try H F t dry st src dst = (r, st')"
  shows "(applied st' = applied st \<and> n_skipped st' = n_skipped st \<and> (dry \<or> (\<exists>e. r = Inl e))) \<or>
         (applied st' = applied st \<and> n_skipped st' = n_skipped st + 1 \<and>
            (r = Inr () \<or> print_fails F SourceNotFound)) \<or>
         (\<not> dry \<and> n_skipped st' = n_skipped st \<and>
            (\<exists>e. applied st' = applied st @ [e] \<and> mv_src e = str_path src) \<and>
            (r = Inr () \<or> print_fails F Moved))"
  using assms
  by (auto simp: apply_row_try_def print_message_def split: sum.splits prod.splits if_splits)



lemma apply_row_applied:
  "applied (apply_row E dry st row) = applied st \<or>
   (\<not> dry \<and> planned row \<and>
    (\<exists>e. applied (apply_row E dry st row) = applied st @ [e] \<and>
         mv_src e = str_path (Path (src_path row))))"
proof (cases "planned row")
  case False
  then show ?thesis by (simp add: apply_row_other)
next
  case True
  obtain r st' where t: "apply_row_try (sha256_digest E) (faults_at E (n_attempted st))
      (time_at E (n_attempted st)) dry (st\<lparr>n_attempted := n_attempted st + 1\<rparr>)
      (Path (src_path row)) (Path (dst_path row)) = (r, st')"
    by (cases "apply_row_try (sha256_digest E) (faults_at E (n_attempted st))
      (time_at E (n_attempted st)) dry (st\<lparr>n_attempted := n_attempted st + 1\<rparr>)
      (Path (src_path row)) (Path (dst_path row))")
  from apply_row_try_outcome[OF t] t True show ?thesis
    by (cases r) (auto simp: apply_row_unfold[OF True])
qed




text \<open>When no exception leaves the loop, it has handled every row in turn.\<close>

lemma apply_loop_returns:
  "apply_loop E dry st rows = (None, st') \<Longrightarrow> st' = foldl (apply_row E dry) st rows"
  by (induction rows arbitrary: st) (auto split: option.splits)

lemma apply_moves_result:
  assumes "apply_moves E fs rows checkpoint dry = (Inr res, fs')"
  shows "attempted res = n_attempted (foldl (apply_row E dry) (loop_init fs) rows)"
    and "succeeded res = length (applied (foldl (apply_row E dry) (loop_init fs) rows))"
    and "skipped res = n_skipped (foldl (apply_row E dry) (loop_init fs) rows)"
    and "errors res = n_errors (foldl (apply_row E dry) (loop_init fs) rows)"
    and "bytes_moved res = n_bytes_moved (foldl (apply_row E dry) (loop_init fs) rows)"
  using assms
  by (auto simp: apply_moves_def Let_def dest!: apply_loop_returns
      split: sum.splits prod.splits option.splits)

lemma apply_moves_checkpoint:
  assumes "apply_moves E fs rows checkpoint dry = (Inr res, fs')"
  shows "\<exists>fs1. write_text fs1 checkpoint
          (json_dumps E (Manifest (time_at E (n_attempted (foldl (apply_row E dry) (loop_init fs) rows))) dry
             \<lparr>attempted = n_attempted (foldl (apply_row E dry) (loop_init fs) rows),
               succeeded = length (applied (foldl (apply_row E dry) (loop_init fs) rows)),
               skipped = n_skipped (foldl (apply_row E dry) (loop_init fs) rows),
               errors = n_errors (foldl (apply_row E dry) (loop_init fs) rows),
               bytes_moved = n_bytes_moved (foldl (apply_row E dry) (loop_init fs) rows)\<rparr>
             (applied (foldl (apply_row E dry) (loop_init fs) rows)))) = Inr fs'"
  using assms
  by (auto simp: apply_moves_def Let_def dest!: apply_loop_returns
      split: sum.splits prod.splits option.splits)

lemma apply_loop_applied:
  "\<exists>ms. applied (foldl (apply_row E dry) st rows) = applied st @ ms \<and>
        subseq (map mv_src ms) (map (\<lambda>r. str_path (Path (src_path r))) (filter planned rows)) \<and>
        (dry \<longrightarrow> ms = [])"
proof (induction rows arbitrary: st)
  case Nil
  show ?case by simp
next
  case (Cons row rows)
  let ?st1 = "apply_row E dry st row"
  from Cons.IH[of ?st1] obtain ms where
    ms: "applied (foldl (apply_row E dry) ?st1 rows) = applied ?st1 @ ms"
    and sub: "subseq (map mv_src ms) (map (\<lambda>r. str_path (Path (src_path r))) (filter planned rows))"
    and dry: "dry \<longrightarrow> ms = []"
    by blast
  from apply_row_applied[of E dry st row] show ?case
  proof
    assume same: "applied ?st1 = applied st"
    have "subseq (map mv_src ms) (map (\<lambda>r. str_path (Path (src_path r))) (filter planned (row # rows)))"
      using sub by (auto intro: subseq_Cons')
    with ms same dry show ?thesis by auto
  next
    assume "\<not> dry \<and> planned row \<and>
      (\<exists>e. applied ?st1 = applied st @ [e] \<and> mv_src e = str_path (Path (src_path row)))"
    then obtain e where nd: "\<not> dry" and pl: "planned row"
      and e: "applied ?st1 = applied st @ [e]" "mv_src e = str_path (Path (src_path row))"
      by blast
    have "subseq (map mv_src (e # ms))
            (map (\<lambda>r. str_path (Path (src_path r))) (filter planned (row # rows)))"
      using sub pl e by simp
    moreover have "applied (foldl (apply_row E dry) st (row # rows)) = applied st @ (e # ms)"
      using ms e by simp
    ultimately show ?thesis using nd by blast
  qed
qed

lemma write_text_lookup:
  "write_text fs p b = Inr fs' \<Longrightarrow> lookup fs' p = Some (File b)"
  by (auto simp: write_text_def open_wb_def lookup_fs_put split: sum.splits option.splits node.splits if_splits)

lemma scenario_A_forced:
  "apply_moves example_env scenario_A [row_A] [''cp.json''] False =
     (Inr \<lparr>attempted = 1, succeeded = 1, skipped = 0, errors = 0, bytes_moved = 5,
           dry_run = False\<rparr>, scenario_A_applied)"
  by code_simp

section \<open>Lemmas about the store and the planner\<close>

lemma group_rows_eq:
  "group_rows files (s, c) = filter (\<lambda>r. sha256 r = s \<and> context_tag r = c) files"
  by (simp add: group_rows_def group_key_def)

lemma get_duplicates_keys:
  "map (\<lambda>g. (fst g, fst (snd g))) (get_duplicates files) =
     filter (\<lambda>k. 1 < length (group_rows files k)) (sort (remdups (map group_key files)))"
  by (simp add: get_duplicates_def comp_def)

lemma plan_src_ts:
  "same_but_ts t acc acc' \<Longrightarrow>
     same_but_ts t (plan_src fs t sha ctx acc s) (plan_src fs t' sha ctx acc' s)"
  by (simp add: same_but_ts_def plan_src_def Let_def)

lemma plan_srcs_ts:
  "same_but_ts t acc acc' \<Longrightarrow>
     same_but_ts t (foldl (plan_src fs t sha ctx) acc xs) (foldl (plan_src fs t' sha ctx) acc' xs)"
  by (induction xs arbitrary: acc acc') (simp_all add: plan_src_ts)

lemma plan_group_ts:
  "same_but_ts t acc acc' \<Longrightarrow> same_but_ts t (plan_group fs t acc g) (plan_group fs t' acc' g)"
  by (simp add: plan_group_def Let_def plan_srcs_ts)

lemma plan_groups_ts:
  "same_but_ts t acc acc' \<Longrightarrow>
     same_but_ts t (foldl (plan_group fs t) acc gs) (foldl (plan_group fs t') acc' gs)"
  by (induction gs arbitrary: acc acc') (simp_all add: plan_group_ts)

text \<open>
  The shape of a plan: of every group all paths but the least are moved, in ascending
  order, and the rollback keys count the rows from zero.
\<close>

lemma plan_src_shape:
  "\<exists>r. plan_src fs t sha ctx acc x = (fst acc @ [r], snd acc + 1) \<and> src_path r = x \<and>
       rollback_key r = ''rbk:'' @ zero_pad 6 (snd acc)"
  by (simp add: plan_src_def Let_def)

lemma plan_srcs_shape:
  "\<exists>rows. foldl (plan_src fs t sha ctx) acc xs = (fst acc @ rows, snd acc + length rows) \<and>
          map src_path rows = xs \<and>
          map rollback_key rows =
            map (\<lambda>i. ''rbk:'' @ zero_pad 6 i) [snd acc ..< snd acc + length rows]"
proof (induction xs arbitrary: acc)
  case Nil
  show ?case by simp
next
  case (Cons x xs)
  from plan_src_shape[of fs t sha ctx acc x] obtain r where
    r: "plan_src fs t sha ctx acc x = (fst acc @ [r], snd acc + 1)" and rs: "src_path r = x"
    and rk: "rollback_key r = ''rbk:'' @ zero_pad 6 (snd acc)" by blast
  from Cons.IH[of "(fst acc @ [r], snd acc + 1)"] obtain rows where
    f: "foldl (plan_src fs t sha ctx) (fst acc @ [r], snd acc + 1) xs
             = ((fst acc @ [r]) @ rows, snd acc + 1 + length rows)"
    and s: "map src_path rows = xs"
    and k: "map rollback_key rows =
         map (\<lambda>i. ''rbk:'' @ zero_pad 6 i) [snd acc + 1 ..< snd acc + 1 + length rows]"
    by auto
  have u: "[snd acc ..< snd acc + length (r # rows)]
          = snd acc # [snd acc + 1 ..< snd acc + 1 + length rows]"
    by (simp del: upt_Suc add: upt_conv_Cons)
  have 1: "foldl (plan_src fs t sha ctx) acc (x # xs)
        = (fst acc @ (r # rows), snd acc + length (r # rows))"
    using r f by simp
  have 2: "map src_path (r # rows) = x # xs" using rs s by simp
  have 3: "map rollback_key (r # rows) =
      map (\<lambda>i. ''rbk:'' @ zero_pad 6 i) [snd acc ..< snd acc + length (r # rows)]"
    unfolding u using rk k by simp
  show ?case by (rule exI[of _ "r # rows"], intro conjI, rule 1, rule 2, rule 3)
qed

lemma plan_groups_shape:
  "\<exists>rows. foldl (plan_group fs t) acc gs = (fst acc @ rows, snd acc + length rows) \<and>
          map src_path rows =
            concat (map (\<lambda>g. tl (sort (str_split (CHR ''|'') (snd (snd g))))) gs) \<and>
          map rollback_key rows =
            map (\<lambda>i. ''rbk:'' @ zero_pad 6 i) [snd acc ..< snd acc + length rows]"
proof (induction gs arbitrary: acc)
  case Nil
  show ?case by simp
next
  case (Cons g gs)
  let ?xs = "tl (sort (str_split (CHR ''|'') (snd (snd g))))"
  have pg: "plan_group fs t acc g = foldl (plan_src fs t (fst g) (fst (snd g))) acc ?xs"
    by (simp add: plan_group_def Let_def)
  from plan_srcs_shape[of fs t "fst g" "fst (snd g)" acc ?xs] obtain r1 where
    r1': "foldl (plan_src fs t (fst g) (fst (snd g))) acc ?xs
            = (fst acc @ r1, snd acc + length r1)"
    and s1: "map src_path r1 = ?xs"
    and k1: "map rollback_key r1 =
        map (\<lambda>i. ''rbk:'' @ zero_pad 6 i) [snd acc ..< snd acc + length r1]"
    by (elim exE conjE)
  from r1' have r1: "plan_group fs t acc g = (fst acc @ r1, snd acc + length r1)"
    by (simp only: pg)
  from Cons.IH[of "(fst acc @ r1, snd acc + length r1)"] obtain r2 where
    f2: "foldl (plan_group fs t) (fst acc @ r1, snd acc + length r1) gs
           = ((fst acc @ r1) @ r2, snd acc + length r1 + length r2)"
    and s2: "map src_path r2 =
        concat (map (\<lambda>g. tl (sort (str_split (CHR ''|'') (snd (snd g))))) gs)"
    and k2: "map rollback_key r2 =
         map (\<lambda>i. ''rbk:'' @ zero_pad 6 i)
           [snd acc + length r1 ..< snd acc + length r1 + length r2]"
    by (elim exE conjE) (simp only: fst_conv snd_conv)
  have "[snd acc ..< snd acc + length r1 + length r2]
          = [snd acc ..< snd acc + length r1] @
            [snd acc + length r1 ..< snd acc + length r1 + length r2]"
    by (rule upt_add_eq_append) simp
  then have u: "[snd acc ..< snd acc + length (r1 @ r2)]
          = [snd acc ..< snd acc + length r1] @
            [snd acc + length r1 ..< snd acc + length r1 + length r2]"
    by (simp only: length_append add.assoc)
  have 1: "foldl (plan_group fs t) acc (g # gs)
        = (fst acc @ (r1 @ r2), snd acc + length (r1 @ r2))"
    using r1 f2 by (simp add: add.assoc)
  have 2: "map src_path (r1 @ r2) =
      concat (map (\<lambda>g. tl (sort (str_split (CHR ''|'') (snd (snd g))))) (g # gs))"
    using s1 s2 by simp
  have 3: "map rollback_key (r1 @ r2) =
      map (\<lambda>i. ''rbk:'' @ zero_pad 6 i) [snd acc ..< snd acc + length (r1 @ r2)]"
    unfolding u using k1 k2 by simp
  show ?case by (rule exI[of _ "r1 @ r2"], intro conjI, rule 1, rule 2, rule 3)
qed

lemma plan_rows_shape:
  "map src_path (plan_rows fs files now) =
     concat (map (\<lambda>g. tl (sort (str_split (CHR ''|'') (snd (snd g))))) (get_duplicates files)) \<and>
   map rollback_key (plan_rows fs files now) =
     map (\<lambda>i. ''rbk:'' @ zero_pad 6 i) [0 ..< length (plan_rows fs files now)]"
  using plan_groups_shape[of fs "iso_now now" "([], 0)" "get_duplicates files"]
  by (auto simp: plan_rows_def)

text \<open>
  Splitting undoes joining when no piece holds the separator: when no path of the store
  contains \<open>|\<close>, the pieces \<open>cmd_plan\<close> gets from a group are the paths of its members.
  The first element of a sorted list is its least.
\<close>

lemma str_split_none: "c \<notin> set x \<Longrightarrow> str_split c x = [x]"
  by (induction x) auto

lemma str_split_append: "c \<notin> set x \<Longrightarrow> str_split c (x @ c # rest) = x # str_split c rest"
  by (induction x) auto

lemma str_split_join:
  "xs \<noteq> [] \<Longrightarrow> \<forall>x\<in>set xs. c \<notin> set x \<Longrightarrow> str_split c (str_join [c] xs) = xs"
proof (induction xs)
  case Nil
  then show ?case by simp
next
  case (Cons x xs)
  show ?case
  proof (cases xs)
    case Nil
    with Cons.prems show ?thesis by (simp add: str_split_none)
  next
    case (Cons y ys)
    with Cons.IH Cons.prems have "str_split c (str_join [c] (y # ys)) = y # ys" by simp
    with Cons Cons.prems show ?thesis by (simp add: str_split_append)
  qed
qed

lemma get_duplicates_paths:
  assumes "\<forall>r\<in>set files. CHR ''|'' \<notin> set (path r)" and "g \<in> set (get_duplicates files)"
  shows "str_split (CHR ''|'') (snd (snd g)) = map path (group_rows files (fst g, fst (snd g)))"
proof -
  from assms(2) obtain k where k: "1 < length (group_rows files k)"
    and g: "g = (fst k, snd k, str_join ''|'' (map path (group_rows files k)))"
    by (auto simp: get_duplicates_def)
  from k have ne: "map path (group_rows files k) \<noteq> []" by auto
  have "\<forall>x\<in>set (map path (group_rows files k)). CHR ''|'' \<notin> set x"
    using assms(1) by (auto simp: group_rows_def)
  from str_split_join[OF ne this] g show ?thesis by simp
qed

lemma plan_rows_sources:
  assumes "\<forall>r\<in>set files. CHR ''|'' \<notin> set (path r)"
  shows "map src_path (plan_rows fs files now) =
     concat (map (\<lambda>g. tl (sort (map path (group_rows files (fst g, fst (snd g))))))
               (get_duplicates files))"
proof -
  have "map (\<lambda>g. tl (sort (str_split (CHR ''|'') (snd (snd g))))) (get_duplicates files) =
        map (\<lambda>g. tl (sort (map path (group_rows files (fst g, fst (snd g))))))
          (get_duplicates files)"
    by (rule map_cong[OF refl]) (simp only: get_duplicates_paths[OF assms])
  with plan_rows_shape[of fs files now] show ?thesis by (simp only:)
qed

lemma sort_least:
  fixes ps :: "'a::linorder list"
  assumes "ps \<noteq> []"
  shows "sort ps = Min (set ps) # tl (sort ps)"
proof (cases "sort ps")
  case Nil
  then have "length ps = 0" using length_sort[of "\<lambda>x. x" ps] by simp
  with assms show ?thesis by simp
next
  case (Cons a as)
  have "sorted (a # as)" using sorted_sort[of ps] Cons by simp
  then have le: "\<forall>x\<in>set as. a \<le> x" by simp
  have "set ps = set (a # as)" using set_sort[of "\<lambda>x. x" ps] Cons by simp
  moreover have "Min (set (a # as)) = a" using le by (intro Min_eqI) auto
  ultimately show ?thesis using Cons by simp
qed

text \<open>
  A path that contains the separator is cut: of the group of \<open>/r/m.txt\<close> and
  \<open>/r/n|/r/a.txt\<close> the planner moves \<open>/r/m.txt\<close>, the least of the two paths, and
  the piece \<open>/r/n\<close>.
\<close>

lemma separator_in_path_is_cut:
  "map src_path (plan_rows scenario_A store_with_separator noon) = [''/r/m.txt'', ''/r/n'']"
  by code_simp

section \<open>Lemmas about the context classifier and the rename applier\<close>

text \<open>
  The last ancestor of every path is the root, whose name is empty, so the adjacent-archive
  check raises there: \<open>_is_inside_archive\<close> returns \<open>True\<close> or raises, and never returns
  \<open>False\<close>.
\<close>

lemma adjacent_archive_root: "adjacent_archive fs [] (ext # exts) = Inl ValueError"
  by (simp add: with_name_def name_def)

lemma inside_archive_loop_root: "inside_archive_loop fs (ps @ [[]]) \<noteq> Inr False"
proof (induction ps)
  case Nil
  show ?case
    by (simp add: Let_def name_def lower_def EXTRACTION_MARKERS_def ARCHIVE_EXTENSIONS_def
        with_name_def)
next
  case (Cons par ps)
  then show ?case by (auto simp: Let_def split: sum.splits)
qed

lemma parents_end_at_root: "p \<noteq> [] \<Longrightarrow> \<exists>ps. parents p = ps @ [[]]"
proof (cases p)
  case Nil
  moreover assume "p \<noteq> []"
  ultimately show ?thesis by simp
next
  case (Cons x xs)
  have "prefixes xs \<noteq> []" by (cases xs) simp_all
  then have "butlast (prefixes (x # xs)) = [] # butlast (map ((#) x) (prefixes xs))"
    by simp
  with Cons show ?thesis by (simp add: parents_def)
qed

lemma is_inside_archive_raises_or_True: "p \<noteq> [] \<Longrightarrow> is_inside_archive fs p \<noteq> Inr False"
  using parents_end_at_root[of p] inside_archive_loop_root[of fs]
  by (auto simp: is_inside_archive_def)

lemma detect_context_never_unarchived:
  "p \<noteq> [] \<Longrightarrow> detect_context fs p \<noteq> Inr ''unarchived''"
  using is_inside_archive_raises_or_True[of p fs]
  by (auto simp: detect_context_def split: sum.splits)

text \<open>
  After a successful \<open>shutil.move\<close> the source is gone, so
  \<open>src.stat().st_size if src.exists() else 0\<close> is \<open>0\<close>.
\<close>

lemma rename_applier_returns_zero:
  assumes "lookup fs src = Some (File c)" and "\<not> path_exists fs dst"
    and "dedupelab_copy_verify_delete H F fs src dst = (Inr sz, fs')"
  shows "sz = 0"
proof -
  from assms(1,2) have ne: "src \<noteq> dst" "src \<noteq> []" by (auto simp: path_exists_def)
  from assms(2) have nd: "\<not> is_dir fs dst" "lookup fs dst = None"
    by (auto simp: path_exists_def is_dir_def)
  from assms(3) obtain fs1 where mv: "shutil_move F fs src dst = Inr fs1"
    and r: "(case path_exists_or_raise F fs1 src of
               Inl e \<Rightarrow> (Inl e, fs1)
             | Inr found \<Rightarrow>
                 if found
                 then (case stat_size_or_raise F fs1 src of
                         Inl e \<Rightarrow> (Inl e, fs1)
                       | Inr sz \<Rightarrow> (Inr sz, fs1))
                 else (Inr 0, fs1)) = (Inr sz, fs')"
    by (auto simp: dedupelab_copy_verify_delete_def anchor_def split: sum.splits)
  from mv nd assms(1) have "fs1 = fs_put dst (File c) (fs_del src fs)"
    by (auto simp: shutil_move_def os_rename_def Let_def split: if_splits option.splits node.splits)
  with ne have "\<not> path_exists fs1 src"
    by (simp add: path_exists_def lookup_fs_put lookup_fs_del)
  with r show ?thesis by (auto simp: path_exists_or_raise_def split: if_splits)
qed

section \<open>Lemmas about the rollback\<close>






text \<open>
  An entry whose \<open>dst\<close> is gone and whose name the system refuses to \<open>stat\<close>: the
  restoration directory is there, \<open>src_now.exists()\<close> raises, and the entry is counted
  as an error.
\<close>

lemma rollback_counts_failing_stat:
  "\<not> path_exists scenario_A_rolled_back (Path (mv_dst entry_A)) \<and>
   is_dir scenario_A_rolled_back (parent (Path (mv_src entry_A))) \<and>
   n_restored (rollback_moves refusing_stat_env scenario_A_rolled_back [entry_A]) = 0 \<and>
   n_rollback_errors (rollback_moves refusing_stat_env scenario_A_rolled_back [entry_A]) = 1"
  by code_simp

section \<open>Lemmas about the three-phase commit\<close>

text \<open>
  Each phase of \<open>copy_verify_delete\<close> touches the temporary path and the destination
  only; the source is read, and unlinked at the very end.
\<close>

lemma lookup_file_not_root: "lookup fs p = Some (File c) \<Longrightarrow> p \<noteq> []"
  by (auto simp: lookup_def)

lemma copy_file_frame:
  assumes "lookup fs src = Some (File c)" and "src \<noteq> tmp"
    and "copy_file F fs src tmp = (r, fs2)"
  shows "lookup fs2 src = Some (File c)"
    and "\<And>q. q \<noteq> tmp \<Longrightarrow> lookup fs2 q = lookup fs q"
    and "\<And>u. r = Inr u \<Longrightarrow>
           \<exists>b. lookup fs2 tmp = Some (File b) \<and>
               (copy_fault F = CopyOk \<and> b = c \<or> copy_fault F = Corrupts b)"
proof -
  have all: "lookup fs2 src = Some (File c) \<and> (\<forall>q. q \<noteq> tmp \<longrightarrow> lookup fs2 q = lookup fs q) \<and>
     (\<forall>u. r = Inr u \<longrightarrow>
        (\<exists>b. lookup fs2 tmp = Some (File b) \<and>
             (copy_fault F = CopyOk \<and> b = c \<or> copy_fault F = Corrupts b)))"
  proof (cases "copy_fault F = OpenFails")
    case True
    with assms show ?thesis by (auto simp: copy_file_def read_bytes_def)
  next
    case nf: False
    show ?thesis
    proof (cases "open_wb fs tmp")
      case (Inl e)
      with assms nf show ?thesis by (auto simp: copy_file_def read_bytes_def)
    next
      case (Inr fs1)
      then have fs1: "fs1 = fs_put tmp (File []) fs" and t: "tmp \<noteq> []"
        by (auto simp: open_wb_def split: option.splits node.splits)
      with assms lookup_file_not_root[OF assms(1)]
      have s1: "lookup fs1 src = Some (File c)" by (simp add: lookup_fs_put)
      have run: "(case copy_fault F of
                    WriteFails k \<Rightarrow> (Inl OSError, fs_put tmp (File (take k c)) fs1)
                  | Corrupts b \<Rightarrow> (Inr (), fs_put tmp (File b) fs1)
                  | _ \<Rightarrow> (Inr (), fs_put tmp (File c) fs1)) = (r, fs2)"
        using assms nf Inr s1 by (simp add: copy_file_def read_bytes_def)
      have frame: "lookup (fs_put tmp n fs1) src = Some (File c)"
        "lookup (fs_put tmp n fs1) tmp = Some n"
        "\<And>q. q \<noteq> tmp \<Longrightarrow> lookup (fs_put tmp n fs1) q = lookup fs q" for n
        using assms(1,2) t fs1 lookup_file_not_root[OF assms(1)] by (simp_all add: lookup_fs_put)
      from run nf show ?thesis
        by (cases "copy_fault F") (auto simp: frame)
    qed
  qed
  from all show "lookup fs2 src = Some (File c)" by blast
  from all show "\<And>q. q \<noteq> tmp \<Longrightarrow> lookup fs2 q = lookup fs q" by blast
  from all show "\<And>u. r = Inr u \<Longrightarrow>
           \<exists>b. lookup fs2 tmp = Some (File b) \<and>
               (copy_fault F = CopyOk \<and> b = c \<or> copy_fault F = Corrupts b)" by blast
qed

lemma unlink_missing_ok_frame:
  "unlink_missing_ok F fs p = Inr fs' \<Longrightarrow> q \<noteq> p \<Longrightarrow> lookup fs' q = lookup fs q"
  by (auto simp: unlink_missing_ok_def lookup_fs_del split: option.splits node.splits if_splits)

lemma unlink_and_raise_frame:
  assumes "unlink_and_raise F fs p = (r, fs')"
  shows "\<exists>e. r = Inl e" and "\<And>q. q \<noteq> p \<Longrightarrow> lookup fs' q = lookup fs q"
  using assms
  by (auto simp: unlink_and_raise_def unlink_missing_ok_frame split: sum.splits)

lemma os_rename_file:
  assumes "lookup fs a = Some (File b)" and "os_rename fs a d = Inr fs'"
  shows "fs' = fs_put d (File b) (fs_del a fs)" and "d \<noteq> []" and "a \<noteq> []"
  using assms
  by (auto simp: os_rename_def split: option.splits node.splits)

lemma unlink_frame:
  assumes "unlink f fs p = Inr fs'"
  shows "fs' = fs_del p fs" and "p \<noteq> []"
  using assms by (auto simp: unlink_def split: option.splits node.splits if_splits)

lemma copy_verify_delete_try_safe:
  assumes src: "lookup fs src = Some (File c)"
    and ne: "src \<noteq> tmp" "src \<noteq> dst" "tmp \<noteq> dst"
    and run: "copy_verify_delete_try H F fs src dst tmp = (res, fs')"
  shows "(\<forall>e. res = Inl e \<longrightarrow> lookup fs' src = Some (File c)) \<and>
         (\<forall>sz. res = Inr sz \<longrightarrow>
            sz = length c \<and> \<not> fsync_fails F \<and> \<not> read_fails F \<and> \<not> rename_fails F \<and>
            (\<exists>c'. lookup fs' dst = Some (File c') \<and> H c' = H c \<and>
                  (copy_fault F = CopyOk \<and> c' = c \<or> copy_fault F = Corrupts c')) \<and>
            lookup fs' tmp = None \<and>
            (lookup fs' src = None \<or> lookup fs' src = Some (File c)))"
proof (cases "mkdir_parents fs (parent dst)")
  case (Inl e)
  with run src show ?thesis by (auto simp: copy_verify_delete_try_def)
next
  case (Inr fs1)
  from mkdir_parents_keeps[OF Inr src] have s1: "lookup fs1 src = Some (File c)" .
  show ?thesis
  proof (cases "stat_raises F src")
    case True
    with run Inr s1 show ?thesis
      by (auto simp: copy_verify_delete_try_def stat_size_or_raise_def)
  next
    case False
    with s1 have st: "stat_size_or_raise F fs1 src = Inr (length c)"
      by (simp add: stat_size_or_raise_def stat_size_def)
    obtain r2 fs2 where cp: "copy_file F fs1 src tmp = (r2, fs2)" by (cases "copy_file F fs1 src tmp")
    note fr = copy_file_frame[OF s1 ne(1) cp]
    show ?thesis
    proof (cases r2)
      case (Inl e)
      with run Inr st cp fr(1) show ?thesis by (auto simp: copy_verify_delete_try_def)
    next
      case copied: (Inr u)
      from fr(3)[OF copied] obtain b where b: "lookup fs2 tmp = Some (File b)"
        and bc: "copy_fault F = CopyOk \<and> b = c \<or> copy_fault F = Corrupts b" by blast
      have rest: "(case fsync_file F fs2 tmp of
          Inl e \<Rightarrow> unlink_and_raise F fs2 tmp
        | Inr _ \<Rightarrow>
       (case sha256_file H F fs2 src of
          Inl e \<Rightarrow> (Inl e, fs2)
        | Inr src_hash \<Rightarrow>
       (case sha256_file H F fs2 tmp of
          Inl e \<Rightarrow> (Inl e, fs2)
        | Inr dst_hash \<Rightarrow>
       (if src_hash \<noteq> dst_hash then unlink_and_raise F fs2 tmp
        else
       (case (if rename_fails F then Inl OSError else os_rename fs2 tmp dst) of
          Inl e \<Rightarrow> unlink_and_raise F fs2 tmp
        | Inr fs3 \<Rightarrow>
       (case unlink (unlink_src_fails F) fs3 src of
          Inl e \<Rightarrow>
            (case print_message F SourceDeletionFailed of
               Inl e' \<Rightarrow> (Inl e', fs3)
             | Inr _ \<Rightarrow> (Inr (length c), fs3))
        | Inr fs4 \<Rightarrow> (Inr (length c), fs4))))))) = (res, fs')"
        using run Inr st cp copied by (simp add: copy_verify_delete_try_def)
      have raise: ?thesis if "unlink_and_raise F fs2 tmp = (res, fs')"
        using unlink_and_raise_frame[OF that] fr(1) ne(1) by auto
      show ?thesis
      proof (cases "fsync_file F fs2 tmp")
        case (Inl e)
        with rest have "unlink_and_raise F fs2 tmp = (res, fs')" by simp
        then show ?thesis by (rule raise)
      next
        case synced: (Inr u2)
        then have nfs: "\<not> fsync_fails F" by (auto simp: fsync_file_def split: sum.splits if_splits)
        show ?thesis
        proof (cases "read_fails F")
          case True
          with rest synced fr(1) show ?thesis by (auto simp: sha256_file_def)
        next
          case nrf: False
          then have h1: "sha256_file H F fs2 src = Inr (H c)"
            and h2: "sha256_file H F fs2 tmp = Inr (H b)"
            using fr(1) b by (simp_all add: sha256_file_def read_bytes_def)
          show ?thesis
          proof (cases "H c = H b")
            case False
            with rest synced h1 h2 have "unlink_and_raise F fs2 tmp = (res, fs')" by simp
            then show ?thesis by (rule raise)
          next
            case same: True
            show ?thesis
            proof (cases "if rename_fails F then Inl OSError else os_rename fs2 tmp dst")
              case (Inl e)
              with rest synced h1 h2 same have "unlink_and_raise F fs2 tmp = (res, fs')" by simp
              then show ?thesis by (rule raise)
            next
              case renamed: (Inr fs3)
              then have nrn: "\<not> rename_fails F" and rn: "os_rename fs2 tmp dst = Inr fs3"
                by (auto split: if_splits)
              from os_rename_file[OF b rn] have fs3: "fs3 = fs_put dst (File b) (fs_del tmp fs2)"
                and d: "dst \<noteq> []" and t: "tmp \<noteq> []" by blast+
              from src have s: "src \<noteq> []" by (auto simp: lookup_def)
              have l3: "lookup fs3 src = Some (File c)" "lookup fs3 dst = Some (File b)"
                "lookup fs3 tmp = None"
                using fs3 d t s ne fr(1) by (simp_all add: lookup_fs_put lookup_fs_del)
              have fin: "(case unlink (unlink_src_fails F) fs3 src of
                  Inl e \<Rightarrow>
                    (case print_message F SourceDeletionFailed of
                       Inl e' \<Rightarrow> (Inl e', fs3)
                     | Inr _ \<Rightarrow> (Inr (length c), fs3))
                | Inr fs4 \<Rightarrow> (Inr (length c), fs4)) = (res, fs')"
                using rest synced h1 h2 same renamed by simp
              show ?thesis
              proof (cases "unlink (unlink_src_fails F) fs3 src")
                case (Inl e)
                with fin l3 nfs nrf nrn same bc show ?thesis
                  by (cases "print_message F SourceDeletionFailed") auto
              next
                case (Inr fs4)
                from unlink_frame[OF Inr] have "fs4 = fs_del src fs3" by simp
                then have "lookup fs4 src = None" "lookup fs4 dst = Some (File b)"
                  "lookup fs4 tmp = None"
                  using l3 s ne by (simp_all add: lookup_fs_del)
                with fin Inr nfs nrf nrn same bc show ?thesis by auto
              qed
            qed
          qed
        qed
      qed
    qed
  qed
qed

lemma stem_suffix_name:
  "(if path_suffix p = [] then name p
    else take (length (name p) - length (path_suffix p)) (name p)) @ path_suffix p = name p"
  by (auto simp: path_suffix_def Let_def has_suffix_def)

lemma stem_append_suffix: "stem p @ path_suffix p = name p"
  by (simp add: stem_def path_suffix_def Let_def)

lemma path_split_last: "p \<noteq> [] \<Longrightarrow> p = parent p @ [name p]"
  by (simp add: parent_def name_def)

lemma with_suffix_tmp:
  assumes "with_suffix dst (path_suffix dst @ ''.tmp'') = Inr tmp"
  shows "tmp = parent dst @ [name dst @ ''.tmp'']" and "dst \<noteq> []" and "tmp \<noteq> dst"
proof -
  from assms have n: "name dst \<noteq> []"
    by (auto simp: with_suffix_def split: if_splits)
  then show d: "dst \<noteq> []" by (auto simp: name_def)
  from assms have "tmp = butlast dst @
      [(if path_suffix dst = [] then name dst
        else take (length (name dst) - length (path_suffix dst)) (name dst))
       @ path_suffix dst @ ''.tmp'']"
    by (auto simp: with_suffix_def split: if_splits)
  then have "tmp = butlast dst @
      [((if path_suffix dst = [] then name dst
        else take (length (name dst) - length (path_suffix dst)) (name dst))
       @ path_suffix dst) @ ''.tmp'']"
    by simp
  then show t: "tmp = parent dst @ [name dst @ ''.tmp'']"
    by (simp only: stem_suffix_name parent_def)
  show "tmp \<noteq> dst"
  proof
    assume "tmp = dst"
    with t path_split_last[OF d] have "parent dst @ [name dst @ ''.tmp''] = parent dst @ [name dst]"
      by simp
    then show False by simp
  qed
qed

lemma cleanup_tmp_frame: "q \<noteq> tmp \<Longrightarrow> lookup (cleanup_tmp F fs tmp) q = lookup fs q"
  by (auto simp: cleanup_tmp_def path_exists_or_raise_def unlink_def lookup_fs_del
      split: option.splits node.splits)

lemma cleanup_tmp_removes:
  "\<not> unlink_tmp_fails F \<Longrightarrow> \<not> stat_raises F tmp \<Longrightarrow> \<not> is_file (cleanup_tmp F fs tmp) tmp"
  by (auto simp: cleanup_tmp_def path_exists_or_raise_def unlink_def is_file_def path_exists_def
      lookup_fs_del dest: lookup_file_not_root split: option.splits node.splits)

lemma copy_verify_delete_safe:
  assumes src: "lookup fs src = Some (File c)"
    and tmp: "with_suffix dst (path_suffix dst @ ''.tmp'') = Inr tmp"
    and ne: "src \<noteq> tmp" "src \<noteq> dst"
    and run: "copy_verify_delete H F fs src dst = (res, fs')"
  shows "(\<forall>e. res = Inl e \<longrightarrow>
            lookup fs' src = Some (File c) \<and>
            (\<not> unlink_tmp_fails F \<and> \<not> stat_raises F tmp \<longrightarrow> \<not> is_file fs' tmp)) \<and>
         (\<forall>sz. res = Inr sz \<longrightarrow>
            sz = length c \<and> \<not> fsync_fails F \<and> \<not> read_fails F \<and> \<not> rename_fails F \<and>
            (\<exists>c'. lookup fs' dst = Some (File c') \<and> H c' = H c \<and>
                  (copy_fault F = CopyOk \<and> c' = c \<or> copy_fault F = Corrupts c')) \<and>
            lookup fs' tmp = None \<and>
            (lookup fs' src = None \<or> lookup fs' src = Some (File c)))"
proof -
  obtain r1 fs1 where t: "copy_verify_delete_try H F fs src dst tmp = (r1, fs1)"
    by (cases "copy_verify_delete_try H F fs src dst tmp")
  note safe = copy_verify_delete_try_safe[OF src ne(1) ne(2) with_suffix_tmp(3)[OF tmp] t]
  show ?thesis
  proof (cases r1)
    case (Inl e)
    with run tmp t have "res = Inl e" "fs' = cleanup_tmp F fs1 tmp"
      by (simp_all add: copy_verify_delete_def)
    with safe Inl ne(1) show ?thesis
      by (simp add: cleanup_tmp_frame cleanup_tmp_removes)
  next
    case (Inr sz)
    with run tmp t have "res = Inr sz" "fs' = fs1"
      by (simp_all add: copy_verify_delete_def)
    with safe Inr show ?thesis by simp
  qed
qed

lemma unique_if_exists_fresh: "\<not> path_exists fs (unique_if_exists fs dst)"
  by (simp add: unique_if_exists_def ensure_unique_fresh)

text \<open>
  The names \<open>ensure_unique\<close> builds: components produced by \<open>Path\<close> hold no
  separator, a suffix starts with a dot, and the temporary path of a numbered candidate
  differs from the path the candidate was built from.
\<close>

lemma str_split_no_sep: "w \<in> set (str_split c s) \<Longrightarrow> c \<notin> set w"
proof (induction s arbitrary: w)
  case Nil
  then show ?case by simp
next
  case (Cons x s)
  show ?case
  proof (cases "x = c")
    case True
    with Cons show ?thesis by auto
  next
    case False
    show ?thesis
    proof (cases "str_split c s")
      case Nil
      with Cons.prems False show ?thesis by simp
    next
      case (Cons v vs)
      with Cons.prems False have "w = x # v \<or> w \<in> set vs" by simp
      with Cons.IH[of v] Cons.IH[of w] Cons False show ?thesis by auto
    qed
  qed
qed

lemma Path_component: "w \<in> set (Path s) \<Longrightarrow> CHR ''/'' \<notin> set w \<and> w \<noteq> []"
  by (auto simp: Path_def dest: str_split_no_sep)

lemma Path_name: "Path s \<noteq> [] \<Longrightarrow> CHR ''/'' \<notin> set (name (Path s)) \<and> name (Path s) \<noteq> []"
  using Path_component[of "last (Path s)" s] by (simp add: name_def)

lemma digit_not_slash: "d < 10 \<Longrightarrow> digit d \<noteq> CHR ''/''"
proof -
  assume "d < 10"
  then have "digit d \<in> set ''0123456789''" unfolding digit_def by (intro nth_mem) simp
  then show ?thesis by auto
qed

lemma str_nat_no_slash: "CHR ''/'' \<notin> set (str_nat n)"
proof (induction n rule: str_nat.induct)
  case (1 n)
  show ?case
  proof (cases "n < 10")
    case True
    then show ?thesis using digit_not_slash[of n] by (subst str_nat.simps) auto
  next
    case False
    with "1.IH" digit_not_slash[of "n mod 10"] show ?thesis
      by (subst str_nat.simps) auto
  qed
qed

lemma suffix_subset: "set (path_suffix p) \<subseteq> set (name p)"
  by (auto simp: path_suffix_def Let_def dest: in_set_dropD)

lemma stem_subset: "set (stem p) \<subseteq> set (name p)"
  by (auto simp: stem_def Let_def dest: in_set_takeD)

lemma suffix_starts_with_dot:
  assumes "path_suffix p \<noteq> []"
  shows "hd (path_suffix p) = CHR ''.''"
proof -
  let ?n = "name p"
  let ?a = "after_last_dot ?n"
  from assms have hs: "has_suffix ?n" and ps: "path_suffix p = drop (length ?n - 1 - ?a) ?n"
    by (auto simp: path_suffix_def Let_def split: if_splits)
  from hs have a: "?a + 1 < length ?n" by (simp add: has_suffix_def)
  then have lt: "length (takeWhile (\<lambda>c. c \<noteq> CHR ''.'') (rev ?n)) < length (rev ?n)"
    by (simp add: after_last_dot_def)
  from nth_length_takeWhile[OF lt] have "rev ?n ! ?a = CHR ''.''"
    by (simp add: after_last_dot_def)
  moreover from a have "rev ?n ! ?a = ?n ! (length ?n - Suc ?a)" by (intro rev_nth) simp
  moreover from a have "hd (drop (length ?n - 1 - ?a) ?n) = ?n ! (length ?n - 1 - ?a)"
    by (intro hd_drop_conv_nth) simp
  ultimately show ?thesis using ps by simp
qed

lemma with_suffix_tmp_ok:
  assumes "name d \<noteq> []" and "CHR ''/'' \<notin> set (name d)"
  shows "with_suffix d (path_suffix d @ ''.tmp'') = Inr (parent d @ [name d @ ''.tmp''])"
proof -
  from assms(2) suffix_subset[of d] have ns: "CHR ''/'' \<notin> set (path_suffix d @ ''.tmp'')"
    by auto
  have hd: "hd (path_suffix d @ ''.tmp'') = CHR ''.''"
    using suffix_starts_with_dot[of d] by (cases "path_suffix d = []") simp_all
  have nd: "path_suffix d @ ''.tmp'' \<noteq> ''.''" by (cases "path_suffix d") simp_all
  have "with_suffix d (path_suffix d @ ''.tmp'') = Inr (butlast d @
      [((if path_suffix d = [] then name d
        else take (length (name d) - length (path_suffix d)) (name d))
       @ path_suffix d) @ ''.tmp''])"
    using ns hd nd assms(1) by (simp add: with_suffix_def)
  then show ?thesis by (simp only: stem_suffix_name parent_def)
qed

lemma candidate_parts:
  "parent (candidate p i) = parent p"
  "name (candidate p i) = stem p @ '' ('' @ str_nat i @ '')'' @ path_suffix p"
  by (simp_all add: candidate_def parent_def name_def)

lemma ensure_unique_existing:
  "path_exists fs p \<Longrightarrow> \<exists>i. ensure_unique fs p = candidate p i"
  using ensure_unique_from_candidate[of 1 fs p] by (auto simp: ensure_unique_def)

lemma candidate_no_slash:
  "CHR ''/'' \<notin> set (name p) \<Longrightarrow> CHR ''/'' \<notin> set (name (candidate p i)) \<and> name (candidate p i) \<noteq> []"
  using stem_subset[of p] suffix_subset[of p] str_nat_no_slash[of i]
  by (auto simp: candidate_parts)

lemma candidate_tmp_differs:
  assumes "p \<noteq> []"
  shows "p \<noteq> parent (candidate p i) @ [name (candidate p i) @ ''.tmp'']"
proof
  assume "p = parent (candidate p i) @ [name (candidate p i) @ ''.tmp'']"
  then have b: "p = parent p @ [name (candidate p i) @ ''.tmp'']"
    by (simp only: candidate_parts(1))
  have a: "parent p @ [name p] = p" using path_split_last[OF assms] by simp
  from trans[OF a b] have "name p = name (candidate p i) @ ''.tmp''"
    by (simp only: append1_eq_conv)
  then have "length (stem p @ path_suffix p) =
      length (stem p @ '' ('' @ str_nat i @ '')'' @ path_suffix p @ ''.tmp'')"
    by (simp add: candidate_parts(2) stem_append_suffix)
  then show False by simp
qed

lemma copy_verify_delete_no_faults:
  assumes src: "lookup fs src = Some (File c)"
    and tmp: "with_suffix dst (path_suffix dst @ ''.tmp'') = Inr tmp"
    and ne: "src \<noteq> tmp" "src \<noteq> dst"
    and par: "is_dir fs (parent dst)"
    and free: "lookup fs dst = None"
    and nodir: "lookup fs tmp \<noteq> Some Dir"
  shows "\<exists>fs'. copy_verify_delete H no_faults fs src dst = (Inr (length c), fs') \<and>
               lookup fs' src = None \<and> lookup fs' dst = Some (File c) \<and> lookup fs' tmp = None"
proof -
  note t = with_suffix_tmp[OF tmp]
  from src have s: "src \<noteq> []" by (rule lookup_file_not_root)
  from t(1) have tn: "tmp \<noteq> []" and pt: "parent tmp = parent dst" by (simp_all add: parent_def)
  from par have pd: "lookup fs (parent dst) = Some Dir" by (simp add: is_dir_def)
  have ptmp: "parent dst \<noteq> tmp" using t(1) by (auto simp: parent_def)
  let ?fs1 = "fs_put tmp (File []) fs"
  let ?fs2 = "fs_put tmp (File c) ?fs1"
  let ?fs3 = "fs_put dst (File c) (fs_del tmp ?fs2)"
  let ?fs4 = "fs_del src ?fs3"
  have mk: "mkdir_parents fs (parent dst) = Inr fs" using pd by (rule mkdir_parents_existing)
  have st: "stat_size_or_raise no_faults fs src = Inr (length c)"
    using src by (simp add: stat_size_or_raise_def stat_size_def no_faults_def)
  have ow: "open_wb fs tmp = Inr ?fs1"
    using nodir pd pt by (auto simp: open_wb_def split: option.splits node.splits)
  have cp: "copy_file no_faults fs src tmp = (Inr (), ?fs2)"
    using src ow ne(1) s by (simp add: copy_file_def read_bytes_def no_faults_def lookup_fs_put)
  have l2: "lookup ?fs2 tmp = Some (File c)" "lookup ?fs2 src = Some (File c)"
    "lookup ?fs2 dst = None" "lookup ?fs2 (parent dst) = Some Dir"
    using tn s ne t(2,3) src free pd ptmp by (auto simp: lookup_fs_put)
  have sy: "fsync_file no_faults ?fs2 tmp = Inr ()"
    using l2 by (simp add: fsync_file_def read_bytes_def no_faults_def)
  have h: "sha256_file H no_faults ?fs2 src = Inr (H c)"
    "sha256_file H no_faults ?fs2 tmp = Inr (H c)"
    using l2 by (simp_all add: sha256_file_def read_bytes_def no_faults_def)
  have rn: "os_rename ?fs2 tmp dst = Inr ?fs3"
    using l2 by (simp add: os_rename_def)
  have l3: "lookup ?fs3 src = Some (File c)"
    using l2 s ne t(2) by (simp add: lookup_fs_put lookup_fs_del)
  have ul: "unlink False ?fs3 src = Inr ?fs4" using l3 by (simp add: unlink_def)
  have run: "copy_verify_delete_try H no_faults fs src dst tmp = (Inr (length c), ?fs4)"
    unfolding copy_verify_delete_try_def
    using mk st cp sy h rn ul by (simp add: no_faults_def)
  have "lookup ?fs4 src = None" "lookup ?fs4 dst = Some (File c)" "lookup ?fs4 tmp = None"
    using s ne t(2,3) tn by (simp_all add: lookup_fs_put lookup_fs_del)
  with run tmp show ?thesis by (simp add: copy_verify_delete_def)
qed

text \<open>
  For the destination \<open>apply_moves\<close> passes on, \<open>dst.with_suffix(dst.suffix + ".tmp")\<close>
  never raises and appends \<open>.tmp\<close> to the name.
\<close>

lemma temp_path_defined:
  "with_suffix (final_dst fs (Path s)) (path_suffix (final_dst fs (Path s)) @ ''.tmp'')
     = Inr (temp_path (final_dst fs (Path s)))"
proof -
  let ?d = "final_dst fs (Path s)"
  have plain: "name (Path s) \<noteq> [] \<and> CHR ''/'' \<notin> set (name (Path s))" if "Path s \<noteq> []"
    using Path_name[OF that] by simp
  have "name ?d \<noteq> [] \<and> CHR ''/'' \<notin> set (name ?d)"
  proof (cases "mkdir_parents fs (parent (Path s))")
    case (Inl e)
    have "Path s \<noteq> []"
    proof
      assume "Path s = []"
      then have "mkdir_parents fs (parent (Path s)) = Inr fs"
        by (simp add: parent_def mkdir_parents_existing)
      with Inl show False by simp
    qed
    with Inl plain show ?thesis by (simp add: final_dst_def)
  next
    case (Inr fs1)
    show ?thesis
    proof (cases "path_exists fs1 (Path s)")
      case True
      then obtain i where "?d = candidate (Path s) i"
        using ensure_unique_existing[of fs1 "Path s"] Inr
        by (auto simp: final_dst_def unique_if_exists_def)
      moreover have "CHR ''/'' \<notin> set (name (Path s))"
        using Path_name[of s] by (cases "Path s = []") (simp_all add: name_def)
      ultimately show ?thesis using candidate_no_slash[of "Path s" i] by simp
    next
      case False
      then have "Path s \<noteq> []" by (auto simp: path_exists_def)
      with False plain Inr show ?thesis by (simp add: final_dst_def unique_if_exists_def)
    qed
  qed
  then show ?thesis unfolding temp_path_def by (intro with_suffix_tmp_ok) simp_all
qed

text \<open>
  The body of the \<open>try\<close> for a source that is a regular file other than the temporary
  path. It ends in one of three ways. The move is recorded, and then only the success
  message can still raise. Or \<open>copy_verify_delete\<close> raised: the source is in place and
  the temporary file is removed unless the cleanup itself fails. Or something raised
  before \<open>copy_verify_delete\<close> was called: every file is as it was.
\<close>

lemma apply_row_try_safe:
  assumes src: "lookup (disk st) src = Some (File c)"
    and tmp: "with_suffix (final_dst (disk st) dst0) (path_suffix (final_dst (disk st) dst0) @ ''.tmp'')
                = Inr (temp_path (final_dst (disk st) dst0))"
    and differ: "src \<noteq> temp_path (final_dst (disk st) dst0)"
    and run: "apply_row_try H F t False st src dst0 = (r, st')"
  shows "(applied st' = applied st @
            [\<lparr>mv_src = str_path src, mv_dst = str_path (final_dst (disk st) dst0),
              mv_size = Some (length c), mv_timestamp = Some t\<rparr>] \<and>
          (r = Inr () \<or> (\<exists>e. r = Inl e) \<and> print_fails F Moved) \<and>
          \<not> fsync_fails F \<and> \<not> read_fails F \<and> \<not> rename_fails F \<and>
          (\<exists>c'. lookup (disk st') (final_dst (disk st) dst0) = Some (File c') \<and> H c' = H c \<and>
                (copy_fault F = CopyOk \<and> c' = c \<or> copy_fault F = Corrupts c')) \<and>
          lookup (disk st') (temp_path (final_dst (disk st) dst0)) = None \<and>
          (lookup (disk st') src = None \<or> lookup (disk st') src = Some (File c)))
         \<or>
         ((\<exists>e. r = Inl e) \<and> applied st' = applied st \<and>
          lookup (disk st') src = Some (File c) \<and>
          (\<not> unlink_tmp_fails F \<and> \<not> stat_raises F (temp_path (final_dst (disk st) dst0))
             \<longrightarrow> \<not> is_file (disk st') (temp_path (final_dst (disk st) dst0))))
         \<or>
         ((\<exists>e. r = Inl e) \<and> applied st' = applied st \<and>
          (\<forall>q b. lookup (disk st') q = Some (File b) \<longleftrightarrow> lookup (disk st) q = Some (File b)))"
proof (cases "stat_raises F src")
  case True
  with run have "r = Inl OSError" "st' = st"
    by (simp_all add: apply_row_try_def path_exists_or_raise_def)
  then show ?thesis by simp
next
  case nr: False
  from src have ex: "path_exists (disk st) src" by (simp add: path_exists_def)
  show ?thesis
  proof (cases "mkdir_parents (disk st) (parent dst0)")
    case (Inl e)
    with run nr ex have "r = Inl e" "st' = st"
      by (simp_all add: apply_row_try_def path_exists_or_raise_def)
    then show ?thesis by simp
  next
    case mk: (Inr fs1)
    note files = mkdir_parents_file[OF mk]
    show ?thesis
    proof (cases "late_collision F fs1 dst0")
      case (Inl e)
      with run nr ex mk have "r = Inl e" "st' = st\<lparr>disk := fs1\<rparr>"
        by (simp_all add: apply_row_try_def path_exists_or_raise_def)
      with files show ?thesis by simp
    next
      case (Inr d)
      from late_collision_value[OF Inr] mk have d: "d = final_dst (disk st) dst0"
        by (simp add: final_dst_def)
      from mkdir_parents_keeps[OF mk src] have s1: "lookup fs1 src = Some (File c)" .
      then have "path_exists fs1 src" by (simp add: path_exists_def)
      with unique_if_exists_fresh[of fs1 dst0] late_collision_value[OF Inr]
      have sd: "src \<noteq> d" by auto
      obtain res fs2 where cvd: "copy_verify_delete H F fs1 src d = (res, fs2)"
        by (cases "copy_verify_delete H F fs1 src d")
      note safe = copy_verify_delete_safe[OF s1 tmp[folded d] differ[folded d] sd cvd]
      show ?thesis
      proof (cases res)
        case (Inl e)
        with run nr ex mk Inr cvd have "r = Inl e" "st' = st\<lparr>disk := fs2\<rparr>"
          by (simp_all add: apply_row_try_def path_exists_or_raise_def)
        with safe Inl d show ?thesis by simp
      next
        case moved: (Inr sz)
        with run nr ex mk Inr cvd have r: "r = print_message F Moved"
          and st': "st' = st\<lparr>n_bytes_moved := n_bytes_moved st + sz,
                 applied := applied st @
                   [\<lparr>mv_src = str_path src, mv_dst = str_path d,
                     mv_size = Some sz, mv_timestamp = Some t\<rparr>],
                 disk := fs2\<rparr>"
          by (simp_all add: apply_row_try_def path_exists_or_raise_def)
        from r have "r = Inr () \<or> (\<exists>e. r = Inl e) \<and> print_fails F Moved"
          by (auto simp: print_message_def)
        with safe moved st' d show ?thesis by simp
      qed
    qed
  qed
qed

text \<open>The same for the iteration: the handler counts what the body raised.\<close>

lemma apply_row_safe:
  assumes pl: "planned row"
    and src: "lookup (disk st) (Path (src_path row)) = Some (File c)"
    and differ: "Path (src_path row) \<noteq> temp_path (final_dst (disk st) (Path (dst_path row)))"
  shows "(applied (apply_row E False st row) = applied st @
            [\<lparr>mv_src = str_path (Path (src_path row)),
              mv_dst = str_path (final_dst (disk st) (Path (dst_path row))),
              mv_size = Some (length c), mv_timestamp = Some (time_at E (n_attempted st))\<rparr>] \<and>
          (n_errors (apply_row E False st row) = n_errors st \<or>
           n_errors (apply_row E False st row) = n_errors st + 1 \<and>
           print_fails (faults_at E (n_attempted st)) Moved) \<and>
          \<not> fsync_fails (faults_at E (n_attempted st)) \<and>
          \<not> read_fails (faults_at E (n_attempted st)) \<and>
          \<not> rename_fails (faults_at E (n_attempted st)) \<and>
          (\<exists>c'. lookup (disk (apply_row E False st row))
                  (final_dst (disk st) (Path (dst_path row))) = Some (File c') \<and>
                sha256_digest E c' = sha256_digest E c \<and>
                (copy_fault (faults_at E (n_attempted st)) = CopyOk \<and> c' = c \<or>
                 copy_fault (faults_at E (n_attempted st)) = Corrupts c')) \<and>
          lookup (disk (apply_row E False st row))
            (temp_path (final_dst (disk st) (Path (dst_path row)))) = None \<and>
          (lookup (disk (apply_row E False st row)) (Path (src_path row)) = None \<or>
           lookup (disk (apply_row E False st row)) (Path (src_path row)) = Some (File c)))
         \<or>
         (n_errors (apply_row E False st row) = n_errors st + 1 \<and>
          applied (apply_row E False st row) = applied st \<and>
          lookup (disk (apply_row E False st row)) (Path (src_path row)) = Some (File c) \<and>
          (\<not> unlink_tmp_fails (faults_at E (n_attempted st)) \<and>
           \<not> stat_raises (faults_at E (n_attempted st))
               (temp_path (final_dst (disk st) (Path (dst_path row))))
             \<longrightarrow> \<not> is_file (disk (apply_row E False st row))
                     (temp_path (final_dst (disk st) (Path (dst_path row))))))
         \<or>
         (n_errors (apply_row E False st row) = n_errors st + 1 \<and>
          applied (apply_row E False st row) = applied st \<and>
          (\<forall>q b. lookup (disk (apply_row E False st row)) q = Some (File b)
                   \<longleftrightarrow> lookup (disk st) q = Some (File b)))"
proof -
  let ?src = "Path (src_path row)"
  let ?F = "faults_at E (n_attempted st)"
  let ?st1 = "st\<lparr>n_attempted := n_attempted st + 1\<rparr>"
  obtain r st' where run: "apply_row_try (sha256_digest E) ?F (time_at E (n_attempted st)) False
      ?st1 ?src (Path (dst_path row)) = (r, st')"
    by (cases "apply_row_try (sha256_digest E) ?F (time_at E (n_attempted st)) False
      ?st1 ?src (Path (dst_path row))")
  have d1: "disk ?st1 = disk st" "applied ?st1 = applied st" "n_errors ?st1 = n_errors st"
    by simp_all
  note tmp = temp_path_defined[of "disk st" "dst_path row"]
  note safe = apply_row_try_safe[of ?st1 ?src c "Path (dst_path row)" "sha256_digest E" ?F
      "time_at E (n_attempted st)" r st', unfolded d1, OF src tmp differ run]
  note cnt = apply_row_try_counters[OF run, unfolded d1]
  show ?thesis
  proof (cases r)
    case (Inl e)
    with run have "apply_row E False st row = st'\<lparr>n_errors := n_errors st' + 1\<rparr>"
      by (simp add: apply_row_unfold[OF pl])
    with safe cnt Inl show ?thesis by auto
  next
    case (Inr u)
    with run have "apply_row E False st row = st'" by (simp add: apply_row_unfold[OF pl])
    with safe cnt Inr show ?thesis by auto
  qed
qed

text \<open>A handled row when nothing fails.\<close>

lemma apply_row_planned:
  assumes "planned row" and "path_exists (disk st) (Path (src_path row))"
    and "mkdir_parents (disk st) (parent (Path (dst_path row))) = Inr fs1"
    and "faults_at E (n_attempted st) = no_faults"
  shows "apply_row E False st row =
     (case copy_verify_delete (sha256_digest E) no_faults fs1
             (Path (src_path row)) (unique_if_exists fs1 (Path (dst_path row))) of
        (Inl e, fs2) \<Rightarrow> st\<lparr>n_attempted := n_attempted st + 1, n_errors := n_errors st + 1,
                            disk := fs2\<rparr>
      | (Inr sz, fs2) \<Rightarrow>
          st\<lparr>n_attempted := n_attempted st + 1,
             n_bytes_moved := n_bytes_moved st + sz,
             applied := applied st @
               [\<lparr>mv_src = str_path (Path (src_path row)),
                 mv_dst = str_path (unique_if_exists fs1 (Path (dst_path row))),
                 mv_size = Some sz, mv_timestamp = Some (time_at E (n_attempted st))\<rparr>],
             disk := fs2\<rparr>)"
proof -
  have nr: "\<forall>p. \<not> stat_raises no_faults p" "\<not> print_fails no_faults DestinationExists"
    "print_message no_faults Moved = Inr ()"
    by (simp_all add: no_faults_def print_message_def)
  have lc: "late_collision no_faults fs1 (Path (dst_path row))
      = Inr (unique_if_exists fs1 (Path (dst_path row)))"
    using nr(1,2) by (rule late_collision_returns)
  show ?thesis
    using assms lc nr
    by (auto simp: apply_row_unfold apply_row_try_def path_exists_or_raise_def
        split: sum.splits prod.splits)
qed

text \<open>
  A row whose source is \<open>dst + ".tmp"\<close>: opening the temporary file truncates the source
  before it is read, the empty copy passes the hash check against the emptied source and
  is renamed to the destination. The row counts as succeeded with \<open>bytes_moved = 5\<close>
  and the content is lost; with a failing \<open>fsync\<close> the handler unlinks the source.
\<close>

lemma aliased_temp_loses_content:
  "lookup scenario_aliased (Path (src_path row_aliased)) = Some (File ''hello'') \<and>
   Path (src_path row_aliased)
     = temp_path (final_dst scenario_aliased (Path (dst_path row_aliased))) \<and>
   n_errors (apply_row example_env False (loop_init scenario_aliased) row_aliased) = 0 \<and>
   length (applied (apply_row example_env False (loop_init scenario_aliased) row_aliased)) = 1 \<and>
   n_bytes_moved (apply_row example_env False (loop_init scenario_aliased) row_aliased) = 5 \<and>
   disk (apply_row example_env False (loop_init scenario_aliased) row_aliased) =
     [([''r'', ''b.txt''], File []), ([''r''], Dir)]"
  by code_simp

lemma aliased_temp_fsync_failure_deletes_source:
  "n_errors (apply_row fsync_fault_env False (loop_init scenario_aliased) row_aliased) = 1 \<and>
   disk (apply_row fsync_fault_env False (loop_init scenario_aliased) row_aliased) =
     [([''r''], Dir)]"
  by code_simp

section \<open>The claims\<close>




text \<open>
  C2: the claim that a path with no archive-like ancestor is classified \<open>unarchived\<close>
  without error. On Scenario A the classifier raises \<open>ValueError\<close> for both files, and
  the scan drops them: two files are found and no record is returned.
\<close>

theorem scan_of_scenario_A_yields_no_record:
  "detect_context scenario_A (Path ''/r/a.txt'') = Inl ValueError \<and>
   detect_context scenario_A (Path ''/r/b.txt'') = Inl ValueError \<and>
   threaded_hash (sha256_digest example_env) (\<lambda>p. 0) (\<lambda>p. ''text/plain'')
     scenario_A [''/r''] [''.deduplab_duplicates''] = ([], 2)"
  by code_simp

text \<open>
  C3: for every store state, \<open>get_duplicates\<close> returns exactly the groups of records
  that share both \<open>sha256\<close> and \<open>context_tag\<close> and have at least two members, each
  with its member paths joined by \<open>|\<close>, and each group once. A returned group
  therefore never holds two records with the same hash and different context tags.
\<close>

theorem get_duplicates_groups:
  "((s, c, j) \<in> set (get_duplicates files) \<longleftrightarrow>
      2 \<le> length (filter (\<lambda>r. sha256 r = s \<and> context_tag r = c) files) \<and>
      j = str_join ''|'' (map path (filter (\<lambda>r. sha256 r = s \<and> context_tag r = c) files))) \<and>
   distinct (map (\<lambda>g. (fst g, fst (snd g))) (get_duplicates files))"
proof -
  let ?members = "filter (\<lambda>r. sha256 r = s \<and> context_tag r = c) files"
  have "(s, c, j) \<in> set (get_duplicates files) \<longleftrightarrow>
          2 \<le> length ?members \<and> j = str_join ''|'' (map path ?members)"
  proof
    assume "(s, c, j) \<in> set (get_duplicates files)"
    then obtain k where k: "1 < length (group_rows files k)"
      and eq: "(s, c, j) = (fst k, snd k, str_join ''|'' (map path (group_rows files k)))"
      by (auto simp: get_duplicates_def)
    from eq have "k = (s, c)" by (cases k) simp
    with k eq show "2 \<le> length ?members \<and> j = str_join ''|'' (map path ?members)"
      by (simp add: group_rows_eq)
  next
    assume a: "2 \<le> length ?members \<and> j = str_join ''|'' (map path ?members)"
    then have len: "1 < length (group_rows files (s, c))" by (simp add: group_rows_eq)
    then have "group_rows files (s, c) \<noteq> []" by auto
    then obtain r where "r \<in> set files" "group_key r = (s, c)"
      by (auto simp: group_rows_def filter_empty_conv)
    then have "(s, c) \<in> set (sort (remdups (map group_key files)))" by force
    with len have "(s, c) \<in> set (filter (\<lambda>k. 1 < length (group_rows files k))
                                (sort (remdups (map group_key files))))"
      by simp
    moreover from a have
      "(s, c, j) = (\<lambda>k. (fst k, snd k, str_join ''|'' (map path (group_rows files k)))) (s, c)"
      by (simp add: group_rows_eq)
    ultimately show "(s, c, j) \<in> set (get_duplicates files)"
      unfolding get_duplicates_def set_map by (rule image_eqI[rotated])
  qed
  moreover have "distinct (map (\<lambda>g. (fst g, fst (snd g))) (get_duplicates files))"
    by (simp add: get_duplicates_keys)
  ultimately show ?thesis by blast
qed

text \<open>
  C4: the claim that the applier that moves by rename is indistinguishable from the strict
  one. On Scenario A the rename applier returns \<open>bytes_moved = 0\<close> and records a move
  without \<open>size\<close> and \<open>timestamp\<close>; the strict applier returns \<open>bytes_moved = 5\<close>
  and records both.
\<close>

theorem rename_applier_differs_from_strict:
  "fst (dedupelab_apply_moves example_env scenario_A [row_A] [''cp.json''] False) =
     Inr \<lparr>attempted = 1, succeeded = 1, skipped = 0, errors = 0, bytes_moved = 0\<rparr> \<and>
   applied (foldl (dedupelab_apply_row example_env False) (loop_init scenario_A) [row_A]) =
     [\<lparr>mv_src = ''/r/b.txt'', mv_dst = ''/r/.deduplab_duplicates/b.txt'',
       mv_size = None, mv_timestamp = None\<rparr>] \<and>
   fst (apply_moves example_env scenario_A [row_A] [''cp.json''] False) =
     Inr \<lparr>attempted = 1, succeeded = 1, skipped = 0, errors = 0, bytes_moved = 5,
          dry_run = False\<rparr> \<and>
   applied (foldl (apply_row example_env False) (loop_init scenario_A) [row_A]) =
     [\<lparr>mv_src = ''/r/b.txt'', mv_dst = ''/r/.deduplab_duplicates/b.txt'',
       mv_size = Some 5, mv_timestamp = Some 1000\<rparr>]"
  by code_simp

text \<open>
  C5, as stated, fails: the \<open>ts\<close> field is the reading of the clock, so two runs over
  the same store and filesystem at different seconds write different CSV files.
\<close>

theorem plan_csv_differs:
  "cmd_plan scenario_A store_A noon \<noteq> cmd_plan scenario_A store_A noon_and_a_second"
  by code_simp

text \<open>
  C5, amended: two runs of the planner over the same store and the same filesystem produce
  the same plan rows in the same order, equal in every field but \<open>ts\<close>, which holds each
  run's clock reading. In both, the sources of the rows are, group by group, the pieces
  between the separators \<open>|\<close> of a group's concatenated paths, sorted, without the
  least; when no path of the store contains \<open>|\<close>, these are the paths of the group's
  members, so that of every duplicate group all paths but the lexicographically least,
  the keeper, are moved. The rollback keys number the rows from zero. The CSV files are
  byte-identical when both runs read the same second.
\<close>

theorem plan_determined_up_to_ts:
  "plan_rows fs files now = map (\<lambda>r. r\<lparr>ts := iso_now now\<rparr>) (plan_rows fs files now') \<and>
   map src_path (plan_rows fs files now) =
     concat (map (\<lambda>g. tl (sort (str_split (CHR ''|'') (snd (snd g))))) (get_duplicates files)) \<and>
   ((\<forall>r\<in>set files. CHR ''|'' \<notin> set (path r)) \<longrightarrow>
      map src_path (plan_rows fs files now) =
        concat (map (\<lambda>g. tl (sort (map path (group_rows files (fst g, fst (snd g))))))
                  (get_duplicates files)) \<and>
      (\<forall>g\<in>set (get_duplicates files).
         sort (map path (group_rows files (fst g, fst (snd g)))) =
           Min (set (map path (group_rows files (fst g, fst (snd g))))) #
           tl (sort (map path (group_rows files (fst g, fst (snd g))))))) \<and>
   map rollback_key (plan_rows fs files now) =
     map (\<lambda>i. ''rbk:'' @ zero_pad 6 i) [0 ..< length (plan_rows fs files now)] \<and>
   cmd_plan fs files now =
     write_plan_csv (map (\<lambda>r. r\<lparr>ts := iso_now now\<rparr>) (plan_rows fs files now')) \<and>
   (iso_now now = iso_now now' \<longrightarrow> cmd_plan fs files now = cmd_plan fs files now')"
proof -
  have "same_but_ts (iso_now now) ([], 0) ([], 0)" by (simp add: same_but_ts_def)
  from plan_groups_ts[OF this, where fs = fs and t' = "iso_now now'" and gs = "get_duplicates files"]
  have rows: "plan_rows fs files now = map (\<lambda>r. r\<lparr>ts := iso_now now\<rparr>) (plan_rows fs files now')"
    by (simp add: same_but_ts_def plan_rows_def)
  have same: "plan_rows fs files now = plan_rows fs files now'" if "iso_now now = iso_now now'"
    using that by (simp add: plan_rows_def)
  note shape = plan_rows_shape[of fs files now]
  have least: "sort (map path (group_rows files (fst g, fst (snd g)))) =
           Min (set (map path (group_rows files (fst g, fst (snd g))))) #
           tl (sort (map path (group_rows files (fst g, fst (snd g)))))"
    if "g \<in> set (get_duplicates files)" for g
  proof -
    from that have "1 < length (group_rows files (fst g, fst (snd g)))"
      by (auto simp: get_duplicates_def)
    then have "map path (group_rows files (fst g, fst (snd g))) \<noteq> []" by auto
    then show ?thesis by (rule sort_least)
  qed
  have csv: "cmd_plan fs files now =
      write_plan_csv (map (\<lambda>r. r\<lparr>ts := iso_now now\<rparr>) (plan_rows fs files now'))"
    unfolding cmd_plan_def by (subst rows) (rule refl)
  have eq: "cmd_plan fs files now = cmd_plan fs files now'" if "iso_now now = iso_now now'"
    unfolding cmd_plan_def by (subst same[OF that]) (rule refl)
  show ?thesis
    by (intro conjI impI ballI) (rule rows, rule shape[THEN conjunct1],
        erule plan_rows_sources, erule least, rule shape[THEN conjunct2], rule csv, erule eq)
qed

theorem plan_determined_up_to_ts_witness:
  "list_all (\<lambda>r. CHR ''|'' \<notin> set (path r)) store_A \<and>
   iso_now noon = iso_now noon \<and>
   cmd_plan scenario_A store_A noon = cmd_plan scenario_A store_A noon \<and>
   plan_rows scenario_A store_A noon =
     map (\<lambda>r. r\<lparr>ts := iso_now noon\<rparr>) (plan_rows scenario_A store_A noon_and_a_second) \<and>
   map src_path (plan_rows scenario_A store_A noon) =
     concat (map (\<lambda>g. tl (sort (map path (group_rows store_A (fst g, fst (snd g))))))
               (get_duplicates store_A)) \<and>
   get_duplicates store_A = [(''2cf24d'', ''unarchived'', ''/r/b.txt|/r/a.txt'')] \<and>
   map src_path (plan_rows scenario_A store_A noon) = [''/r/b.txt'']"
proof -
  note later = plan_determined_up_to_ts[of scenario_A store_A noon noon_and_a_second]
  from later have r: "plan_rows scenario_A store_A noon =
      map (\<lambda>r. r\<lparr>ts := iso_now noon\<rparr>) (plan_rows scenario_A store_A noon_and_a_second)"
    by (rule conjunct1)
  have p: "\<forall>r\<in>set store_A. CHR ''|'' \<notin> set (path r)" by (simp add: store_A_def)
  then have p': "list_all (\<lambda>r. CHR ''|'' \<notin> set (path r)) store_A" by (simp add: list_all_iff)
  from later have "(\<forall>r\<in>set store_A. CHR ''|'' \<notin> set (path r)) \<longrightarrow>
      map src_path (plan_rows scenario_A store_A noon) =
        concat (map (\<lambda>g. tl (sort (map path (group_rows store_A (fst g, fst (snd g))))))
                  (get_duplicates store_A)) \<and>
      (\<forall>g\<in>set (get_duplicates store_A).
         sort (map path (group_rows store_A (fst g, fst (snd g)))) =
           Min (set (map path (group_rows store_A (fst g, fst (snd g))))) #
           tl (sort (map path (group_rows store_A (fst g, fst (snd g))))))"
    by (elim conjE)
  with p have s: "map src_path (plan_rows scenario_A store_A noon) =
        concat (map (\<lambda>g. tl (sort (map path (group_rows store_A (fst g, fst (snd g))))))
                  (get_duplicates store_A))"
    by (elim impE conjE)
  have g: "get_duplicates store_A = [(''2cf24d'', ''unarchived'', ''/r/b.txt|/r/a.txt'')]"
    by code_simp
  have m: "map src_path (plan_rows scenario_A store_A noon) = [''/r/b.txt'']"
    by code_simp
  from plan_determined_up_to_ts[of scenario_A store_A noon noon]
  have "iso_now noon = iso_now noon \<longrightarrow>
      cmd_plan scenario_A store_A noon = cmd_plan scenario_A store_A noon"
    by (elim conjE)
  then have c: "cmd_plan scenario_A store_A noon = cmd_plan scenario_A store_A noon" by simp
  show ?thesis by (intro conjI) (rule p', rule refl, rule c, rule r, rule s, rule g, rule m)
qed

text \<open>
  C6: whenever \<open>apply_moves\<close> returns, the checkpoint file holds the manifest of the run,
  the number of entries of its \<open>moves\<close> list is the returned \<open>succeeded\<close> count (also
  the one in the manifest's statistics), the sources of the entries are, in order, sources
  of planned rows, and in a dry run \<open>moves\<close> is empty and \<open>succeeded\<close> is 0.
\<close>

theorem checkpoint_completeness:
  assumes "apply_moves E fs rows checkpoint dry = (Inr res, fs')"
  shows "\<exists>t st ms.
           lookup fs' checkpoint = Some (File (json_dumps E (Manifest t dry st ms))) \<and>
           length ms = succeeded res \<and> succeeded st = succeeded res \<and>
           subseq (map mv_src ms)
             (map (\<lambda>r. str_path (Path (src_path r))) (filter planned rows)) \<and>
           (dry \<longrightarrow> ms = [] \<and> succeeded res = 0)"
proof -
  let ?st = "foldl (apply_row E dry) (loop_init fs) rows"
  from apply_loop_applied[of E dry "loop_init fs" rows] have
    sub: "subseq (map mv_src (applied ?st))
            (map (\<lambda>r. str_path (Path (src_path r))) (filter planned rows))"
    and dry: "dry \<longrightarrow> applied ?st = []"
    by (auto simp: loop_init_def)
  from apply_moves_checkpoint[OF assms] obtain fs1 where
    w: "write_text fs1 checkpoint
          (json_dumps E (Manifest (time_at E (n_attempted ?st)) dry
             \<lparr>attempted = n_attempted ?st, succeeded = length (applied ?st),
               skipped = n_skipped ?st, errors = n_errors ?st,
               bytes_moved = n_bytes_moved ?st\<rparr> (applied ?st))) = Inr fs'"
    by blast
  note look = write_text_lookup[OF w]
  have suc: "succeeded res = length (applied ?st)" by (rule apply_moves_result(2)[OF assms])
  show ?thesis
    using look suc sub dry by (intro exI conjI) (assumption | simp)+
qed

theorem checkpoint_completeness_witness:
  "apply_moves example_env scenario_A [row_A] [''cp.json''] False =
     (Inr \<lparr>attempted = 1, succeeded = 1, skipped = 0, errors = 0, bytes_moved = 5,
           dry_run = False\<rparr>, scenario_A_applied) \<and>
   (\<exists>t st ms.
      lookup scenario_A_applied [''cp.json'']
        = Some (File (json_dumps example_env (Manifest t False st ms))) \<and>
      length ms = 1 \<and> succeeded st = 1 \<and>
      subseq (map mv_src ms) (map (\<lambda>r. str_path (Path (src_path r))) (filter planned [row_A])))"
  using checkpoint_completeness[OF scenario_A_forced] scenario_A_forced by simp

text \<open>
  C7, as stated, fails: a row whose \<open>dst_path\<close> equals its \<open>src_path\<close> is not treated as
  an error. The destination exists, so the late-collision guard renames it with
  \<open>ensure_unique\<close>, and the file is moved to \<open>b (1).txt\<close> and counted as succeeded.
\<close>

theorem same_path_row_counts_as_success:
  "dst_path row_same_path = src_path row_same_path \<and>
   apply_moves example_env scenario_A [row_same_path] [''cp.json''] False =
     (Inr \<lparr>attempted = 1, succeeded = 1, skipped = 0, errors = 0, bytes_moved = 5,
           dry_run = False\<rparr>,
      [([''cp.json''], File ''{}''), ([''r'', ''b (1).txt''], File ''hello''), ([''r''], Dir),
       ([''r'', ''a.txt''], File ''hello'')])"
  by code_simp

text \<open>
  C7, amended: for a plan row whose \<open>dst_path\<close> equals its \<open>src_path\<close>, the source being a
  regular file in an existing directory, applying the row never destroys the content:
  afterwards the source still holds it, or the uniquified destination
  \<open>ensure_unique(dst)\<close>, a different path, holds a file with the same SHA-256. When no
  step fails, the row is not an error but a recorded move of the file to that
  destination.
\<close>

theorem same_path_row_moves_aside:
  assumes "planned row" and "dst_path row = src_path row"
    and "lookup (disk st) (Path (src_path row)) = Some (File c)"
    and "is_dir (disk st) (parent (Path (src_path row)))"
  shows "ensure_unique (disk st) (Path (src_path row)) \<noteq> Path (src_path row) \<and>
    (lookup (disk (apply_row E False st row)) (Path (src_path row)) = Some (File c) \<or>
     (\<exists>c'. lookup (disk (apply_row E False st row))
              (ensure_unique (disk st) (Path (src_path row))) = Some (File c') \<and>
           sha256_digest E c' = sha256_digest E c)) \<and>
    (faults_at E (n_attempted st) = no_faults \<and>
     lookup (disk st)
       (parent (ensure_unique (disk st) (Path (src_path row))) @
        [name (ensure_unique (disk st) (Path (src_path row))) @ ''.tmp'']) \<noteq> Some Dir
     \<longrightarrow>
       n_errors (apply_row E False st row) = n_errors st \<and>
       applied (apply_row E False st row) = applied st @
         [\<lparr>mv_src = str_path (Path (src_path row)),
           mv_dst = str_path (ensure_unique (disk st) (Path (src_path row))),
           mv_size = Some (length c), mv_timestamp = Some (time_at E (n_attempted st))\<rparr>] \<and>
       lookup (disk (apply_row E False st row))
         (ensure_unique (disk st) (Path (src_path row))) = Some (File c) \<and>
       lookup (disk (apply_row E False st row)) (Path (src_path row)) = None)"
proof -
  let ?p = "Path (src_path row)"
  let ?fs = "disk st"
  let ?q = "ensure_unique ?fs ?p"
  let ?tmp = "parent ?q @ [name ?q @ ''.tmp'']"
  let ?st' = "apply_row E False st row"
  note src = assms(3)
  from src have ex: "path_exists ?fs ?p" by (simp add: path_exists_def)
  from src have pn: "?p \<noteq> []" by (rule lookup_file_not_root)
  have mk: "mkdir_parents ?fs (parent (Path (dst_path row))) = Inr ?fs"
    using assms(2,4) by (simp add: is_dir_def mkdir_parents_existing)
  have u: "unique_if_exists ?fs (Path (dst_path row)) = ?q"
    using ex assms(2) by (simp add: unique_if_exists_def)
  have fd: "final_dst ?fs (Path (dst_path row)) = ?q"
    using mk u by (simp add: final_dst_def)
  from ensure_unique_existing[OF ex] obtain i where q: "?q = candidate ?p i" by blast
  from ensure_unique_fresh[of ?fs ?p] have free: "lookup ?fs ?q = None"
    by (simp add: path_exists_def)
  with src have qp: "?q \<noteq> ?p" by auto
  from Path_name[OF pn] candidate_no_slash[of ?p i] q
  have "name ?q \<noteq> []" "CHR ''/'' \<notin> set (name ?q)" by simp_all
  from with_suffix_tmp_ok[OF this] have tmp: "with_suffix ?q (path_suffix ?q @ ''.tmp'') = Inr ?tmp" .
  have differ: "?p \<noteq> ?tmp" using candidate_tmp_differs[OF pn, of i] q by simp
  then have differ': "?p \<noteq> temp_path (final_dst ?fs (Path (dst_path row)))"
    by (simp add: fd temp_path_def)
  have par: "is_dir ?fs (parent ?q)" using assms(4) q by (simp add: candidate_parts(1))
  from apply_row_safe[OF assms(1) src differ', of E] src
  have kept: "lookup (disk ?st') ?p = Some (File c) \<or>
     (\<exists>c'. lookup (disk ?st') ?q = Some (File c') \<and> sha256_digest E c' = sha256_digest E c)"
    unfolding fd by blast
  have moved: "n_errors ?st' = n_errors st \<and>
       applied ?st' = applied st @
         [\<lparr>mv_src = str_path ?p, mv_dst = str_path ?q,
           mv_size = Some (length c), mv_timestamp = Some (time_at E (n_attempted st))\<rparr>] \<and>
       lookup (disk ?st') ?q = Some (File c) \<and> lookup (disk ?st') ?p = None"
    if nf: "faults_at E (n_attempted st) = no_faults" and nodir: "lookup ?fs ?tmp \<noteq> Some Dir"
  proof -
    from copy_verify_delete_no_faults[OF src tmp differ qp[symmetric] par free nodir,
        of "sha256_digest E"]
    obtain fs' where "copy_verify_delete (sha256_digest E) no_faults ?fs ?p ?q
        = (Inr (length c), fs')"
      and "lookup fs' ?p = None" "lookup fs' ?q = Some (File c)" by blast
    with apply_row_planned[OF assms(1) ex mk nf] u show ?thesis by simp
  qed
  from qp kept moved show ?thesis by blast
qed

theorem same_path_row_moves_aside_witness:
  "planned row_same_path \<and> dst_path row_same_path = src_path row_same_path \<and>
   lookup (disk (loop_init scenario_A)) (Path (src_path row_same_path)) = Some (File ''hello'') \<and>
   is_dir (disk (loop_init scenario_A)) (parent (Path (src_path row_same_path))) \<and>
   faults_at example_env (n_attempted (loop_init scenario_A)) = no_faults \<and>
   ensure_unique (disk (loop_init scenario_A)) (Path (src_path row_same_path))
     = [''r'', ''b (1).txt''] \<and>
   lookup (disk (loop_init scenario_A)) [''r'', ''b (1).txt.tmp''] = None \<and>
   n_errors (apply_row example_env False (loop_init scenario_A) row_same_path) = 0 \<and>
   lookup (disk (apply_row example_env False (loop_init scenario_A) row_same_path))
     [''r'', ''b (1).txt''] = Some (File ''hello'') \<and>
   lookup (disk (apply_row example_env False (loop_init scenario_A) row_same_path))
     (Path (src_path row_same_path)) = None"
proof -
  have h1: "planned row_same_path" by code_simp
  have h2: "dst_path row_same_path = src_path row_same_path" by code_simp
  have h3: "lookup (disk (loop_init scenario_A)) (Path (src_path row_same_path))
      = Some (File ''hello'')" by code_simp
  have h4: "is_dir (disk (loop_init scenario_A)) (parent (Path (src_path row_same_path)))"
    by code_simp
  have nf: "faults_at example_env (n_attempted (loop_init scenario_A)) = no_faults"
    by (simp add: example_env_def)
  have q: "ensure_unique (disk (loop_init scenario_A)) (Path (src_path row_same_path))
     = [''r'', ''b (1).txt'']" by code_simp
  have t: "lookup (disk (loop_init scenario_A)) [''r'', ''b (1).txt.tmp''] = None" by code_simp
  have z: "n_errors (loop_init scenario_A) = 0" by (simp add: loop_init_def)
  from same_path_row_moves_aside[OF h1 h2 h3 h4, of example_env] nf t z
  have "n_errors (apply_row example_env False (loop_init scenario_A) row_same_path) = 0 \<and>
   lookup (disk (apply_row example_env False (loop_init scenario_A) row_same_path))
     [''r'', ''b (1).txt''] = Some (File ''hello'') \<and>
   lookup (disk (apply_row example_env False (loop_init scenario_A) row_same_path))
     (Path (src_path row_same_path)) = None"
    by (simp add: q parent_def name_def)
  with h1 h2 h3 h4 nf q t show ?thesis by simp
qed

text \<open>
  C8: for every path \<open>P\<close> and a filesystem that does not change between the calls,
  \<open>ensure_unique (ensure_unique P) = ensure_unique P\<close>: the result of \<open>ensure_unique\<close>
  names a path that does not exist, so the rule returns it unchanged.
\<close>

theorem ensure_unique_idempotent:
  "ensure_unique fs (ensure_unique fs p) = ensure_unique fs p \<and>
   \<not> path_exists fs (ensure_unique fs p)"
proof -
  have fresh: "\<not> path_exists fs (ensure_unique fs p)" by (rule ensure_unique_fresh)
  then have "ensure_unique fs (ensure_unique fs p) = ensure_unique fs p"
    by (subst ensure_unique_def) simp
  with fresh show ?thesis by simp
qed







end
